theory Spec2Isabelle
  imports Complex_Main "HOL-Library.Monad_Syntax"
begin

section \<open>Bus route simulator: a circular doubly-linked list of stops\<close>

text \<open>
  The C program keeps one route in two globals, \<open>head\<close> and \<open>next_id\<close>, and the stops in
  nodes obtained from \<open>malloc\<close>. The model is an explicit store: a partial map from
  addresses to nodes, the two globals beside it. A pointer is an \<open>addr option\<close>,
  \<open>None\<close> being \<open>NULL\<close>. The type \<open>'w\<close> stands for C's \<open>double\<close>.

  Every operation runs in the option monad. The value \<open>None\<close> means that the C call
  yields no state: a pointer that is \<open>NULL\<close> or not allocated is dereferenced or freed,
  a loop does not end, or the process has left through \<open>exit\<close>.
\<close>

subsection \<open>Constants, nodes and the program state\<close>

definition NAME_LEN :: nat where
  "NAME_LEN = 64"

definition LINE_LEN :: nat where
  "LINE_LEN = 256"

type_synonym addr = nat

text \<open>
  \<open>struct Stop\<close>. The field \<open>id\<close> is \<open>stop_id\<close> here and \<open>next\<close> is \<open>next_p\<close>: the first is
  the identity function of HOL, the second a keyword of Isar.
\<close>

record 'w Stop =
  stop_id :: int
  name :: string
  passengers :: int
  dist_to_next :: 'w
  time_to_next :: 'w
  prev :: "addr option"
  next_p :: "addr option"

record 'w state =
  heap :: "addr \<rightharpoonup> 'w Stop"
  head :: "addr option"
  next_id :: int

text \<open>The initial values of the globals: \<open>head = NULL\<close>, \<open>next_id = 1\<close>, nothing allocated.\<close>

definition init_state :: "'w state" where
  "init_state = \<lparr>heap = Map.empty, head = None, next_id = 1\<rparr>"

text \<open>
  \<open>int\<close> is 32 bits wide. C leaves \<open>next_id++\<close> undefined at \<open>INT_MAX\<close>; the model wraps
  around in two's complement, as the compiled program does.
\<close>

definition wrap32 :: "int \<Rightarrow> int" where
  "wrap32 x = (x + 2147483648) mod 4294967296 - 2147483648"

subsection \<open>Memory access\<close>

definition deref :: "addr option \<Rightarrow> 'w state \<Rightarrow> 'w Stop option" where
  "deref p s = (case p of None \<Rightarrow> None | Some a \<Rightarrow> heap s a)"

definition store :: "addr option \<Rightarrow> ('w Stop \<Rightarrow> 'w Stop) \<Rightarrow> 'w state \<Rightarrow> 'w state option" where
  "store p f s =
     (case p of
        None \<Rightarrow> None
      | Some a \<Rightarrow>
          (case heap s a of
             None \<Rightarrow> None
           | Some st \<Rightarrow> Some (s\<lparr>heap := (heap s)(a \<mapsto> f st)\<rparr>)))"

definition get_next :: "addr option \<Rightarrow> 'w state \<Rightarrow> addr option option" where
  "get_next p s = map_option next_p (deref p s)"

definition get_prev :: "addr option \<Rightarrow> 'w state \<Rightarrow> addr option option" where
  "get_prev p s = map_option prev (deref p s)"

definition set_next :: "addr option \<Rightarrow> addr option \<Rightarrow> 'w state \<Rightarrow> 'w state option" where
  "set_next p v s = store p (\<lambda>st. st\<lparr>next_p := v\<rparr>) s"

definition set_prev :: "addr option \<Rightarrow> addr option \<Rightarrow> 'w state \<Rightarrow> 'w state option" where
  "set_prev p v s = store p (\<lambda>st. st\<lparr>prev := v\<rparr>) s"

definition free :: "addr option \<Rightarrow> 'w state \<Rightarrow> 'w state option" where
  "free p s =
     (case p of
        None \<Rightarrow> Some s
      | Some a \<Rightarrow> (if heap s a = None then None else Some (s\<lparr>heap := (heap s)(a := None)\<rparr>)))"

subsection \<open>Case-insensitive comparison\<close>

definition tolower :: "char \<Rightarrow> char" where
  "tolower c = (let n = of_char c :: nat in if 65 \<le> n \<and> n \<le> 90 then char_of (n + 32) else c)"

text \<open>
  \<open>strcasecmp\<close> on the characters before the terminating NUL: the difference of the first
  two folded characters that differ, the terminator counting as 0.
\<close>

fun strcasecmp :: "string \<Rightarrow> string \<Rightarrow> int" where
  "strcasecmp [] [] = 0"
| "strcasecmp [] (y # ys) = - int (of_char (tolower y))"
| "strcasecmp (x # xs) [] = int (of_char (tolower x))"
| "strcasecmp (x # xs) (y # ys) =
     (if tolower x = tolower y then strcasecmp xs ys
      else int (of_char (tolower x)) - int (of_char (tolower y)))"

subsection \<open>Creating and appending a stop\<close>

text \<open>
  \<open>create_stop\<close>: the first argument is what \<open>malloc\<close> returns. On \<open>NULL\<close> the program
  calls \<open>exit\<close>. \<open>strncpy\<close> and the terminator keep the first \<open>NAME_LEN - 1\<close> characters.
\<close>

definition create_stop ::
  "addr option \<Rightarrow> string \<Rightarrow> int \<Rightarrow> 'w \<Rightarrow> 'w \<Rightarrow> 'w state \<Rightarrow> (addr option \<times> 'w state) option" where
  "create_stop m nm p d t s =
     (case m of
        None \<Rightarrow> None
      | Some a \<Rightarrow>
          Some (Some a,
            s\<lparr>heap := (heap s)(a \<mapsto>
                 \<lparr>stop_id = next_id s, name = take (NAME_LEN - 1) nm, passengers = p,
                  dist_to_next = d, time_to_next = t, prev = None, next_p = None\<rparr>),
              next_id := wrap32 (next_id s + 1)\<rparr>))"

definition insert_end :: "addr option \<Rightarrow> 'w state \<Rightarrow> 'w state option" where
  "insert_end node s =
     (if node = None then Some s
      else if head s = None then do {
        let s1 = s\<lparr>head := node\<rparr>;
        s2 \<leftarrow> set_prev (head s1) (head s1) s1;
        set_next (head s2) (head s2) s2
      } else do {
        tail \<leftarrow> get_prev (head s) s;
        s1 \<leftarrow> set_next tail node s;
        s2 \<leftarrow> set_prev node tail s1;
        s3 \<leftarrow> set_next node (head s2) s2;
        set_prev (head s3) node s3
      })"

text \<open>Menu option 3 of the program: \<open>insert_end(create_stop(name, p, d, t))\<close>.\<close>

definition append_stop ::
  "addr option \<Rightarrow> string \<Rightarrow> int \<Rightarrow> 'w \<Rightarrow> 'w \<Rightarrow> 'w state \<Rightarrow> 'w state option" where
  "append_stop m nm p d t s = do {
     (node, s1) \<leftarrow> create_stop m nm p d t s;
     insert_end node s1
   }"

subsection \<open>Lookup and deletion\<close>

partial_function (option) find_by_name_loop ::
  "string \<Rightarrow> addr option \<Rightarrow> 'w state \<Rightarrow> addr option option" where
  "find_by_name_loop nm cur s = do {
     st \<leftarrow> deref cur s;
     if strcasecmp (name st) nm = 0 then Some cur
     else if next_p st \<noteq> head s then find_by_name_loop nm (next_p st) s
     else Some None
   }"

definition find_by_name :: "string \<Rightarrow> 'w state \<Rightarrow> addr option option" where
  "find_by_name nm s = (if head s = None then Some None else find_by_name_loop nm (head s) s)"

definition delete_by_name :: "string \<Rightarrow> 'w state \<Rightarrow> (int \<times> 'w state) option" where
  "delete_by_name nm s = do {
     target \<leftarrow> find_by_name nm s;
     if target = None then Some (0, s)
     else do {
       tn \<leftarrow> get_next target s;
       if tn = target then do {
         s1 \<leftarrow> free target s;
         Some (1, s1\<lparr>head := None\<rparr>)
       } else do {
         p \<leftarrow> get_prev target s;
         n \<leftarrow> get_next target s;
         s1 \<leftarrow> set_next p n s;
         s2 \<leftarrow> set_prev n p s1;
         let s3 = (if target = head s2 then s2\<lparr>head := n\<rparr> else s2);
         s4 \<leftarrow> free target s3;
         Some (1, s4)
       }
     }
   }"

subsection \<open>Insertion after a stop and at a position\<close>

definition insert_after :: "addr option \<Rightarrow> addr option \<Rightarrow> 'w state \<Rightarrow> 'w state option" where
  "insert_after existing newstop s =
     (if newstop = None then Some s
      else if existing = None then insert_end newstop s
      else do {
        nx \<leftarrow> get_next existing s;
        s1 \<leftarrow> set_next existing newstop s;
        s2 \<leftarrow> set_prev newstop existing s1;
        s3 \<leftarrow> set_next newstop nx s2;
        set_prev nx newstop s3
      })"

text \<open>The loop of \<open>insert_at_position\<close>: \<open>while (cur->next != head && idx < pos-1)\<close>.\<close>

partial_function (option) insert_at_position_loop ::
  "addr option \<Rightarrow> int \<Rightarrow> int \<Rightarrow> 'w state \<Rightarrow> addr option option" where
  "insert_at_position_loop cur idx pos s = do {
     nx \<leftarrow> get_next cur s;
     if nx \<noteq> head s \<and> idx < pos - 1 then insert_at_position_loop nx (idx + 1) pos s
     else Some cur
   }"

definition insert_at_position :: "addr option \<Rightarrow> int \<Rightarrow> 'w state \<Rightarrow> 'w state option" where
  "insert_at_position newstop pos s =
     (if newstop = None then Some s
      else if head s = None \<or> pos \<le> 1 then
        (if head s = None then do {
           let s1 = s\<lparr>head := newstop\<rparr>;
           s2 \<leftarrow> set_prev (head s1) (head s1) s1;
           set_next (head s2) (head s2) s2
         } else do {
           tail \<leftarrow> get_prev (head s) s;
           s1 \<leftarrow> set_next newstop (head s) s;
           s2 \<leftarrow> set_prev newstop tail s1;
           s3 \<leftarrow> set_next tail newstop s2;
           s4 \<leftarrow> set_prev (head s3) newstop s3;
           Some (s4\<lparr>head := newstop\<rparr>)
         })
      else do {
        cur \<leftarrow> insert_at_position_loop (head s) 1 pos s;
        insert_after cur newstop s
      })"

subsection \<open>Clearing the route\<close>

partial_function (option) clear_route_loop :: "addr option \<Rightarrow> 'w state \<Rightarrow> 'w state option" where
  "clear_route_loop cur s =
     (if cur \<noteq> head s then do {
        nx \<leftarrow> get_next cur s;
        s1 \<leftarrow> free cur s;
        clear_route_loop nx s1
      } else Some s)"

definition clear_route :: "'w state \<Rightarrow> 'w state option" where
  "clear_route s =
     (if head s = None then Some s
      else do {
        cur \<leftarrow> get_next (head s) s;
        s1 \<leftarrow> clear_route_loop cur s;
        s2 \<leftarrow> free (head s1) s1;
        Some (s2\<lparr>head := None\<rparr>)
      })"

section \<open>Metrics\<close>

text \<open>
  Both functions return through pointers; the model returns the values they hold at the
  end. Addition and zero are those of the type \<open>'w\<close> of the weights.
\<close>

partial_function (option) total_distance_time_loop ::
  "addr option \<Rightarrow> 'w::{plus,zero} \<times> 'w \<Rightarrow> 'w state \<Rightarrow> ('w \<times> 'w) option" where
  "total_distance_time_loop cur acc s = do {
     st \<leftarrow> deref cur s;
     let acc' = (fst acc + dist_to_next st, snd acc + time_to_next st);
     if next_p st \<noteq> head s then total_distance_time_loop (next_p st) acc' s
     else Some acc'
   }"

definition total_distance_time :: "'w::{plus,zero} state \<Rightarrow> ('w \<times> 'w) option" where
  "total_distance_time s =
     (if head s = None then Some (0, 0) else total_distance_time_loop (head s) (0, 0) s)"

partial_function (option) distance_between_loop ::
  "addr option \<Rightarrow> addr option \<Rightarrow> addr option \<Rightarrow> 'w::{plus,zero} \<times> 'w \<Rightarrow> 'w state \<Rightarrow>
   (int \<times> 'w \<times> 'w) option" where
  "distance_between_loop start target cur acc s = do {
     st \<leftarrow> deref cur s;
     let acc' = (fst acc + dist_to_next st, snd acc + time_to_next st);
     if next_p st = target then Some (1, acc')
     else if next_p st \<noteq> start then distance_between_loop start target (next_p st) acc' s
     else Some (0, acc')
   }"

definition distance_between ::
  "string \<Rightarrow> string \<Rightarrow> 'w::{plus,zero} state \<Rightarrow> (int \<times> 'w \<times> 'w) option" where
  "distance_between a_name b_name s =
     (if head s = None then Some (0, 0, 0)
      else do {
        start \<leftarrow> find_by_name a_name s;
        target \<leftarrow> find_by_name b_name s;
        if start = None \<or> target = None then Some (0, 0, 0)
        else if start = target then Some (1, 0, 0)
        else distance_between_loop start target start (0, 0) s
      })"

section \<open>Persistence: the text file\<close>

subsection \<open>Text conversions of the C library\<close>

text \<open>
  \<open>isspace\<close> and \<open>isdigit\<close> in the C locale; \<open>print_int\<close> is the conversion \<open>%d\<close> of
  \<open>fprintf\<close>, \<open>scan_int\<close> the conversion \<open>%d\<close> of \<open>sscanf\<close>: white space is skipped, a
  sign may come first, at least one digit must follow. A scanner returns the value and the
  rest of the input, \<open>None\<close> on a matching failure. For a number outside the range of
  \<open>int\<close> the C standard fixes no result; the model takes what glibc does with a 64-bit
  \<open>long\<close>: \<open>strtol\<close> clamps, the store to the \<open>int\<close> truncates.
\<close>

definition isspace :: "char \<Rightarrow> bool" where
  "isspace c \<longleftrightarrow> c \<in> set [CHR '' '', CHR 0x09, CHR 0x0A, CHR 0x0B, CHR 0x0C, CHR 0x0D]"

definition isdigit :: "char \<Rightarrow> bool" where
  "isdigit c \<longleftrightarrow> (48::nat) \<le> of_char c \<and> of_char c \<le> (57::nat)"

definition digit_char :: "nat \<Rightarrow> char" where
  "digit_char d = char_of (48 + d)"

definition digit_val :: "char \<Rightarrow> nat" where
  "digit_val c = of_char c - 48"

fun digits :: "nat \<Rightarrow> string" where
  "digits n = (if n < 10 then [digit_char n] else digits (n div 10) @ [digit_char (n mod 10)])"

declare digits.simps [simp del]

definition print_int :: "int \<Rightarrow> string" where
  "print_int i = (if i < 0 then CHR ''-'' # digits (nat (- i)) else digits (nat i))"

definition digits_val :: "string \<Rightarrow> nat" where
  "digits_val ds = foldl (\<lambda>v c. 10 * v + digit_val c) 0 ds"

definition strtol_clamp :: "int \<Rightarrow> int" where
  "strtol_clamp v = max (- 9223372036854775808) (min 9223372036854775807 v)"

definition scan_int :: "string \<Rightarrow> (int \<times> string) option" where
  "scan_int cs =
     (let cs1 = dropWhile isspace cs;
          neg = (cs1 \<noteq> [] \<and> hd cs1 = CHR ''-'');
          cs2 = (if cs1 \<noteq> [] \<and> (hd cs1 = CHR ''-'' \<or> hd cs1 = CHR ''+'') then tl cs1 else cs1);
          ds = takeWhile isdigit cs2;
          v = int (digits_val ds)
      in if ds = [] then None
         else Some (wrap32 (strtol_clamp (if neg then - v else v)), dropWhile isdigit cs2))"

text \<open>A literal character of the format, and the conversion \<open>%63[^,]\<close>.\<close>

definition scan_lit :: "char \<Rightarrow> string \<Rightarrow> string option" where
  "scan_lit c cs = (case cs of [] \<Rightarrow> None | x # r \<Rightarrow> if x = c then Some r else None)"

definition scan_name :: "string \<Rightarrow> (string \<times> string) option" where
  "scan_name cs =
     (let nm = take (NAME_LEN - 1) (takeWhile (\<lambda>c. c \<noteq> CHR '','') cs)
      in if nm = [] then None else Some (nm, drop (length nm) cs))"

text \<open>
  \<open>sscanf(line, "%*d,%63[^,],%d,%lf,%lf", name, &passengers, &dist, &time)\<close> reads the
  buffer up to its first NUL. The result is \<open>Some\<close> of the four assigned values exactly
  when the call returns 4, the only case in which \<open>load_from_file\<close> uses them. The
  conversion \<open>%lf\<close> of the C library is the parameter \<open>scan_lf\<close>.
\<close>

definition c_str :: "string \<Rightarrow> string" where
  "c_str buf = takeWhile (\<lambda>c. c \<noteq> CHR 0x00) buf"

definition sscanf_row ::
  "(string \<Rightarrow> ('w \<times> string) option) \<Rightarrow> string \<Rightarrow> (string \<times> int \<times> 'w \<times> 'w) option" where
  "sscanf_row scan_lf line = do {
     (_, r1) \<leftarrow> scan_int (c_str line);
     r2 \<leftarrow> scan_lit (CHR '','') r1;
     (nm, r3) \<leftarrow> scan_name r2;
     r4 \<leftarrow> scan_lit (CHR '','') r3;
     (p, r5) \<leftarrow> scan_int r4;
     r6 \<leftarrow> scan_lit (CHR '','') r5;
     (d, r7) \<leftarrow> scan_lf r6;
     r8 \<leftarrow> scan_lit (CHR '','') r7;
     (t, _) \<leftarrow> scan_lf r8;
     Some (nm, p, d, t)
   }"

subsection \<open>Reading lines\<close>

text \<open>
  An open file is the text that is still unread. \<open>fgets(line, n, f)\<close> takes at most
  \<open>n - 1\<close> characters and stops behind a newline; at the end of the file it returns
  \<open>NULL\<close>, here \<open>None\<close>.
\<close>

fun fgets_chars :: "nat \<Rightarrow> string \<Rightarrow> string \<times> string" where
  "fgets_chars 0 cs = ([], cs)"
| "fgets_chars (Suc k) [] = ([], [])"
| "fgets_chars (Suc k) (c # cs) =
     (if c = CHR 0x0A then ([c], cs)
      else (case fgets_chars k cs of (l, r) \<Rightarrow> (c # l, r)))"

definition fgets :: "nat \<Rightarrow> string \<Rightarrow> (string \<times> string) option" where
  "fgets n f = (if f = [] then None else Some (fgets_chars (n - 1) f))"

lemma fgets_chars_length: "length (snd (fgets_chars k cs)) \<le> length cs"
  by (induction k cs rule: fgets_chars.induct) (auto split: prod.splits)

lemma fgets_chars_shorter: "0 < k \<Longrightarrow> cs \<noteq> [] \<Longrightarrow> length (snd (fgets_chars k cs)) < length cs"
  using fgets_chars_length [of "k - 1" "tl cs"]
  by (cases k; cases cs) (auto split: prod.splits simp: less_Suc_eq_le)

lemma fgets_shorter: "fgets LINE_LEN f = Some (l, r) \<Longrightarrow> length r < length f"
  using fgets_chars_shorter [of "LINE_LEN - 1" f]
  by (auto simp: fgets_def LINE_LEN_def split: if_splits)

subsection \<open>Loading and saving\<close>

text \<open>
  The list \<open>ms\<close> holds the addresses that the coming calls of \<open>malloc\<close> return, in
  order; once it is used up \<open>malloc\<close> returns \<open>NULL\<close>. The file is \<open>None\<close> when \<open>fopen\<close>
  fails, else its content.
\<close>

definition malloc :: "addr list \<Rightarrow> addr option" where
  "malloc ms = (case ms of [] \<Rightarrow> None | a # _ \<Rightarrow> Some a)"

function load_from_file_loop ::
  "(string \<Rightarrow> ('w \<times> string) option) \<Rightarrow> addr list \<Rightarrow> string \<Rightarrow> 'w state \<Rightarrow> 'w state option" where
  "load_from_file_loop scan_lf ms f s =
     (case fgets LINE_LEN f of
        None \<Rightarrow> Some s
      | Some (line, f') \<Rightarrow>
          (case sscanf_row scan_lf line of
             None \<Rightarrow> load_from_file_loop scan_lf ms f' s
           | Some (nm, p, d, t) \<Rightarrow>
               (case create_stop (malloc ms) nm p d t s of
                  None \<Rightarrow> None
                | Some (node, s1) \<Rightarrow>
                    (case insert_end node s1 of
                       None \<Rightarrow> None
                     | Some s2 \<Rightarrow> load_from_file_loop scan_lf (tl ms) f' s2))))"
  by pat_completeness auto
termination
  by (relation "measure (\<lambda>(scan_lf, ms, f, s). length f)") (auto simp: fgets_shorter)

definition load_from_file ::
  "(string \<Rightarrow> ('w \<times> string) option) \<Rightarrow> addr list \<Rightarrow> string option \<Rightarrow> 'w state \<Rightarrow>
   (int \<times> 'w state) option" where
  "load_from_file scan_lf ms file s =
     (case file of
        None \<Rightarrow> Some (0, s)
      | Some f \<Rightarrow> do {
          s1 \<leftarrow> clear_route s;
          (case fgets LINE_LEN f of
             None \<Rightarrow> Some (0, s1)
           | Some (line, f') \<Rightarrow> do {
               s2 \<leftarrow> load_from_file_loop scan_lf ms f' s1;
               Some (1, s2)
             })
        })"

text \<open>
  \<open>fprintf(f, "%d,%s,%d,%.6f,%.6f\\n", ...)\<close>; the conversion \<open>%.6f\<close> of the C library is
  the parameter \<open>fmt_f\<close>. \<open>save_to_file\<close> returns its status and the text written, the
  flag \<open>writable\<close> telling whether \<open>fopen\<close> for writing succeeds.
\<close>

definition format_row :: "('w \<Rightarrow> string) \<Rightarrow> 'w Stop \<Rightarrow> string" where
  "format_row fmt_f st =
     print_int (stop_id st) @ '','' @ name st @ '','' @ print_int (passengers st) @ '','' @
     fmt_f (dist_to_next st) @ '','' @ fmt_f (time_to_next st) @ [CHR 0x0A]"

partial_function (option) save_to_file_loop ::
  "('w \<Rightarrow> string) \<Rightarrow> addr option \<Rightarrow> 'w state \<Rightarrow> string option" where
  "save_to_file_loop fmt_f cur s = do {
     st \<leftarrow> deref cur s;
     if next_p st \<noteq> head s then do {
       out \<leftarrow> save_to_file_loop fmt_f (next_p st) s;
       Some (format_row fmt_f st @ out)
     } else Some (format_row fmt_f st)
   }"

definition save_to_file :: "('w \<Rightarrow> string) \<Rightarrow> bool \<Rightarrow> 'w state \<Rightarrow> (int \<times> string option) option" where
  "save_to_file fmt_f writable s =
     (if head s = None then Some (0, None)
      else if \<not> writable then Some (0, None)
      else do {
        out \<leftarrow> save_to_file_loop fmt_f (head s) s;
        Some (1, Some (''id,name,passengers,dist_to_next,time_to_next'' @ [CHR 0x0A] @ out))
      })"

section \<open>The route as a list of addresses\<close>

text \<open>
  The invariant of the structure. \<open>cyclic s ps\<close> says that the stops of the route are,
  in traversal order from \<open>head\<close>, the nodes at the distinct addresses \<open>ps\<close>: each one's
  \<open>next\<close> is the following address, the last one's the first, and \<open>prev\<close> is the
  inverse of \<open>next\<close>. For the empty route \<open>head\<close> is \<open>NULL\<close>.
\<close>

text \<open>
  \<open>nxt\<close> and \<open>prv\<close> read the two links of a heap as functions on addresses. The payload
  of a stop is the data it carries besides the links: identity, name, passengers,
  distance and time. \<open>links_only s s'\<close> holds when \<open>s'\<close> differs from \<open>s\<close> in links at most, and
  \<open>matches s nm a\<close> when \<open>strcasecmp\<close> finds the name stored at \<open>a\<close> equal to \<open>nm\<close>.
\<close>

definition nxt :: "(addr \<rightharpoonup> 'w Stop) \<Rightarrow> addr \<Rightarrow> addr option" where
  "nxt h a = (case h a of None \<Rightarrow> None | Some st \<Rightarrow> next_p st)"

definition prv :: "(addr \<rightharpoonup> 'w Stop) \<Rightarrow> addr \<Rightarrow> addr option" where
  "prv h a = (case h a of None \<Rightarrow> None | Some st \<Rightarrow> prev st)"

definition payload :: "'w Stop \<Rightarrow> int \<times> string \<times> int \<times> 'w \<times> 'w" where
  "payload st = (stop_id st, name st, passengers st, dist_to_next st, time_to_next st)"

definition payloads :: "'w state \<Rightarrow> addr \<Rightarrow> (int \<times> string \<times> int \<times> 'w \<times> 'w) option" where
  "payloads s a = map_option payload (heap s a)"

text \<open>The identity stored at an address, and \<open>n\<close> steps along \<open>next\<close> from a pointer.\<close>

definition id_at :: "'w state \<Rightarrow> addr \<Rightarrow> int option" where
  "id_at s a = map_option stop_id (heap s a)"

fun advance :: "nat \<Rightarrow> addr option \<Rightarrow> 'w state \<Rightarrow> addr option option" where
  "advance 0 p s = Some p"
| "advance (Suc n) p s = (case get_next p s of None \<Rightarrow> None | Some q \<Rightarrow> advance n q s)"

definition ringf :: "(addr \<Rightarrow> addr option) \<Rightarrow> (addr \<Rightarrow> addr option) \<Rightarrow> addr list \<Rightarrow> bool" where
  "ringf nx pv ps \<longleftrightarrow>
     distinct ps \<and> (\<forall>(a, b) \<in> set (zip ps (rotate1 ps)). nx a = Some b \<and> pv b = Some a)"

definition cyclic :: "'w state \<Rightarrow> addr list \<Rightarrow> bool" where
  "cyclic s ps \<longleftrightarrow>
     ringf (nxt (heap s)) (prv (heap s)) ps \<and> head s = (case ps of [] \<Rightarrow> None | p # _ \<Rightarrow> Some p)"

definition links_only :: "'w state \<Rightarrow> 'w state \<Rightarrow> bool" where
  "links_only s s' \<longleftrightarrow>
     head s' = head s \<and> next_id s' = next_id s \<and> payloads s' = payloads s"

definition matches :: "'w state \<Rightarrow> string \<Rightarrow> addr \<Rightarrow> bool" where
  "matches s nm a = (case heap s a of None \<Rightarrow> False | Some st \<Rightarrow> strcasecmp (name st) nm = 0)"

subsection \<open>What a file holds, and what a load makes of it\<close>

text \<open>
  Functions for stating results, not code of the program: the chunks that successive
  calls of \<open>fgets\<close> return for a text, the value tuples of the chunks that \<open>sscanf\<close>
  accepts, the stops that \<open>create_stop\<close> builds from such tuples when the counter stands
  at \<open>i\<close>, the counter after \<open>k\<close> increments, and the state with the nodes \<open>ps\<close> freed and
  \<open>head\<close> reset.
\<close>

function file_lines :: "string \<Rightarrow> string list" where
  "file_lines f = (case fgets LINE_LEN f of None \<Rightarrow> [] | Some (line, f') \<Rightarrow> line # file_lines f')"
  by pat_completeness auto
termination
  by (relation "measure length") (auto simp: fgets_shorter)

definition parsed_rows ::
  "(string \<Rightarrow> ('w \<times> string) option) \<Rightarrow> string \<Rightarrow> (string \<times> int \<times> 'w \<times> 'w) list" where
  "parsed_rows scan_lf f = List.map_filter (sscanf_row scan_lf) (file_lines f)"

fun loaded_stops ::
  "int \<Rightarrow> (string \<times> int \<times> 'w \<times> 'w) list \<Rightarrow> (int \<times> string \<times> int \<times> 'w \<times> 'w) list" where
  "loaded_stops i [] = []"
| "loaded_stops i ((nm, p, d, t) # rs) =
     (i, take (NAME_LEN - 1) nm, p, d, t) # loaded_stops (wrap32 (i + 1)) rs"

fun advance_id :: "nat \<Rightarrow> int \<Rightarrow> int" where
  "advance_id 0 i = i"
| "advance_id (Suc k) i = advance_id k (wrap32 (i + 1))"

definition released :: "addr list \<Rightarrow> 'w state \<Rightarrow> 'w state" where
  "released ps s = s\<lparr>heap := (\<lambda>a. if a \<in> set ps then None else heap s a), head := None\<rparr>"

text \<open>
  The weights of the legs that leave the stops \<open>ps\<close>, in order, and one step of the
  accumulation that both metrics functions perform.
\<close>

definition legs :: "'w state \<Rightarrow> addr list \<Rightarrow> ('w \<times> 'w) list" where
  "legs s ps =
     List.map_filter (\<lambda>a. map_option (\<lambda>st. (dist_to_next st, time_to_next st)) (heap s a)) ps"

definition add_leg :: "'w::plus \<times> 'w \<Rightarrow> 'w \<times> 'w \<Rightarrow> 'w \<times> 'w" where
  "add_leg acc l = (fst acc + fst l, snd acc + snd l)"

text \<open>What is left of a file once its first line is read.\<close>

definition data_part :: "string \<Rightarrow> string" where
  "data_part f = (case fgets LINE_LEN f of None \<Rightarrow> [] | Some (line, f') \<Rightarrow> f')"

text \<open>
  The rows of a text are its lines, each with its newline; the last one may lack it.
  \<open>rows_fit\<close> holds when no row is longer than \<open>LINE_LEN - 1\<close> characters, so that
  \<open>fgets\<close> returns each row whole.
\<close>

function text_rows :: "string \<Rightarrow> string list" where
  "text_rows f =
     (if f = [] then []
      else (case dropWhile (\<lambda>c. c \<noteq> CHR 0x0A) f of
              [] \<Rightarrow> [f]
            | c # rest \<Rightarrow> (takeWhile (\<lambda>c. c \<noteq> CHR 0x0A) f @ [c]) # text_rows rest))"
  by pat_completeness auto
termination
proof (relation "measure length")
  show "wf (measure length)" by simp
next
  fix f :: string and c rest
  assume "dropWhile (\<lambda>c. c \<noteq> CHR 0x0A) f = c # rest"
  then have "length (c # rest) \<le> length f"
    using length_dropWhile_le [of "\<lambda>c. c \<noteq> CHR 0x0A" f] by simp
  then show "(rest, f) \<in> measure length" by simp
qed

definition rows_fit :: "string \<Rightarrow> bool" where
  "rows_fit f \<longleftrightarrow> (\<forall>r \<in> set (text_rows f). length r < LINE_LEN)"

text \<open>
  For the round trip through a file: the nodes at the addresses \<open>ps\<close>, the range of
  \<open>int\<close>, text free of NUL and newline, a row without its newline, and the values of a
  stop apart from its identity, as stored and as read back. \<open>round_trips\<close> collects what
  a stop needs for its row to be read back: a name that is not empty and has no comma,
  NUL or newline, numbers in the range of \<open>int\<close>, a row that fits into one call of
  \<open>fgets\<close>, and weights whose text the library's \<open>%lf\<close> reads as the value \<open>reread w\<close>.
\<close>

definition stops :: "'w state \<Rightarrow> addr list \<Rightarrow> 'w Stop list" where
  "stops s ps = List.map_filter (heap s) ps"

definition in_int_range :: "int \<Rightarrow> bool" where
  "in_int_range i \<longleftrightarrow> - 2147483648 \<le> i \<and> i \<le> 2147483647"

definition plain_text :: "string \<Rightarrow> bool" where
  "plain_text cs \<longleftrightarrow> CHR 0x00 \<notin> set cs \<and> CHR 0x0A \<notin> set cs"

definition row_body :: "('w \<Rightarrow> string) \<Rightarrow> 'w Stop \<Rightarrow> string" where
  "row_body fmt_f st =
     print_int (stop_id st) @ '','' @ name st @ '','' @ print_int (passengers st) @ '','' @
     fmt_f (dist_to_next st) @ '','' @ fmt_f (time_to_next st)"

definition round_trips ::
  "('w \<Rightarrow> string) \<Rightarrow> (string \<Rightarrow> ('w \<times> string) option) \<Rightarrow> ('w \<Rightarrow> 'w) \<Rightarrow> 'w Stop \<Rightarrow> bool" where
  "round_trips fmt_f scan_lf reread st \<longleftrightarrow>
     name st \<noteq> [] \<and> CHR '','' \<notin> set (name st) \<and> plain_text (name st) \<and>
     length (name st) < NAME_LEN \<and>
     in_int_range (stop_id st) \<and> in_int_range (passengers st) \<and>
     plain_text (fmt_f (dist_to_next st)) \<and> plain_text (fmt_f (time_to_next st)) \<and>
     (\<forall>rest. scan_lf (fmt_f (dist_to_next st) @ CHR '','' # rest) =
        Some (reread (dist_to_next st), CHR '','' # rest)) \<and>
     (\<exists>rest. scan_lf (fmt_f (time_to_next st) @ [CHR 0x0A]) = Some (reread (time_to_next st), rest)) \<and>
     length (format_row fmt_f st) < LINE_LEN"

definition tuple_at :: "'w state \<Rightarrow> addr \<Rightarrow> (string \<times> int \<times> 'w \<times> 'w) option" where
  "tuple_at s a =
     map_option (\<lambda>st. (name st, passengers st, dist_to_next st, time_to_next st)) (heap s a)"

definition reread_tuple :: "('w \<Rightarrow> 'w) \<Rightarrow> 'w Stop \<Rightarrow> string \<times> int \<times> 'w \<times> 'w" where
  "reread_tuple reread st =
     (name st, passengers st, reread (dist_to_next st), reread (time_to_next st))"

subsection \<open>A sample route\<close>

text \<open>
  The route of the specification's scenario, \<open>[A(d=1,t=2), B(d=3,t=4), C(d=5,t=6)]\<close>, as
  three calls of \<open>create_stop\<close> and \<open>insert_end\<close> from the initial state leave it when
  \<open>malloc\<close> returns the addresses 1, 2 and 3.
\<close>

definition abc_route :: "'w::numeral state" where
  "abc_route =
     \<lparr>heap = [1 \<mapsto> \<lparr>stop_id = 1, name = ''A'', passengers = 0, dist_to_next = 1,
                      time_to_next = 2, prev = Some 3, next_p = Some 2\<rparr>,
              2 \<mapsto> \<lparr>stop_id = 2, name = ''B'', passengers = 0, dist_to_next = 3,
                      time_to_next = 4, prev = Some 1, next_p = Some 3\<rparr>,
              3 \<mapsto> \<lparr>stop_id = 3, name = ''C'', passengers = 0, dist_to_next = 5,
                      time_to_next = 6, prev = Some 2, next_p = Some 1\<rparr>],
      head = Some 1, next_id = 4\<rparr>"

text \<open>
  The same state after \<open>create_stop("D", 0, 7, 8)\<close> returned the node at address 4: the
  node is allocated and not yet linked.
\<close>

definition abc_new_route :: "'w::numeral state" where
  "abc_new_route =
     abc_route\<lparr>heap := (heap abc_route)(4 \<mapsto>
       \<lparr>stop_id = 4, name = ''D'', passengers = 0, dist_to_next = 7, time_to_next = 8,
        prev = None, next_p = None\<rparr>), next_id := 5\<rparr>"

text \<open>
  A route of one stop whose name is empty, as menu option 3 creates it when the user
  answers the name prompt with an empty line, and the row that \<open>save_to_file\<close> writes
  for it.
\<close>

definition unnamed_route :: "real state" where
  "unnamed_route =
     \<lparr>heap = [1 \<mapsto> \<lparr>stop_id = 1, name = [], passengers = 0, dist_to_next = 1,
                      time_to_next = 2, prev = Some 1, next_p = Some 1\<rparr>],
      head = Some 1, next_id = 2\<rparr>"

definition unnamed_row :: string where
  "unnamed_row = ''1,,0,1.000000,2.000000''"

text \<open>A name of \<open>NAME_LEN\<close> characters, one more than \<open>create_stop\<close> keeps.\<close>

definition long_name :: string where
  "long_name = replicate 64 (CHR ''x'')"

subsection \<open>Sample conversions and a sample file\<close>

text \<open>
  For the closed examples the weights are reals and the two conversions of the C library
  are taken on plain decimal notation: \<open>fmt_f_decimal\<close> writes six decimals, rounding to
  nearest, \<open>scan_lf_decimal\<close> reads an optional sign, digits and an optional fraction.
  The examples use them on whole numbers and halves only, which binary64 holds exactly,
  so that the C library reads and writes the same text and the same values there.
  \<open>scan_lf_decimal\<close> is not the whole of \<open>%lf\<close>: it reads no exponent, no hexadecimal
  notation, no \<open>inf\<close> and no \<open>nan\<close>.
\<close>

definition round_half_even :: "real \<Rightarrow> int" where
  "round_half_even y =
     (let f = \<lfloor>y\<rfloor>; r = y - of_int f
      in if r < 1 / 2 then f else if 1 / 2 < r then f + 1 else if even f then f else f + 1)"

definition fmt_f_decimal :: "real \<Rightarrow> string" where
  "fmt_f_decimal x =
     (let q = nat (round_half_even (\<bar>x\<bar> * 1000000));
          fp = digits (q mod 1000000)
      in (if x < 0 then ''-'' else '''') @ digits (q div 1000000) @ ''.'' @
         replicate (6 - length fp) (CHR ''0'') @ fp)"

definition scan_lf_decimal :: "string \<Rightarrow> (real \<times> string) option" where
  "scan_lf_decimal cs =
     (let cs1 = dropWhile isspace cs;
          neg = (cs1 \<noteq> [] \<and> hd cs1 = CHR ''-'');
          cs2 = (if cs1 \<noteq> [] \<and> (hd cs1 = CHR ''-'' \<or> hd cs1 = CHR ''+'') then tl cs1 else cs1);
          ip = takeWhile isdigit cs2;
          r1 = dropWhile isdigit cs2;
          dot = (r1 \<noteq> [] \<and> hd r1 = CHR ''.'');
          fp = (if dot then takeWhile isdigit (tl r1) else []);
          r2 = (if dot then dropWhile isdigit (tl r1) else r1);
          v = of_nat (digits_val ip) + of_nat (digits_val fp) / 10 ^ length fp
      in if ip = [] \<and> fp = [] then None else Some (if neg then - v else v, r2))"

definition header_line :: string where
  "header_line = ''id,name,passengers,dist_to_next,time_to_next'' @ [CHR 0x0A]"

definition sample_rows :: string where
  "sample_rows =
     ''1,A,3,1.5,2'' @ [CHR 0x0A] @ ''bad row'' @ [CHR 0x0A] @ ''7,B,4,2.5,3'' @ [CHR 0x0A]"

definition sample_file :: string where
  "sample_file = header_line @ sample_rows"

text \<open>
  A row of 262 characters that \<open>sscanf\<close> would read in full: its last field, the time 7,
  is written with 250 leading zeros.
\<close>

definition long_row :: string where
  "long_row = ''1,A,3,1.5,'' @ replicate 245 (CHR ''0'') @ ''000007'' @ [CHR 0x0A]"

subsection \<open>Addition of binary64 numbers\<close>

text \<open>
  On the usual platforms \<open>double\<close> is IEEE 754 binary64. For one example the finite
  numbers of that format are modelled: \<open>B64 m e\<close> stands for \<open>m * 2 ^ e\<close>, a sum is the exact
  sum rounded to 53 significant bits, to nearest and to an even mantissa on a tie.
  Overflow and subnormal numbers are left out; the example is far from both. The route
  \<open>tenths_route\<close> is \<open>[A, B, C]\<close> with the weights 0.1, 0.2 and 0.3 as binary64 holds them.
\<close>

datatype binary64 = B64 int int

fun bit_length :: "nat \<Rightarrow> nat" where
  "bit_length n = (if n = 0 then 0 else Suc (bit_length (n div 2)))"

definition round_to_53 :: "int \<Rightarrow> int \<Rightarrow> binary64" where
  "round_to_53 m e =
     (let k = bit_length (nat \<bar>m\<bar>) - 53
      in if k = 0 then B64 m e
         else let q = \<bar>m\<bar> div 2 ^ k; r = \<bar>m\<bar> mod 2 ^ k; h = 2 ^ (k - 1);
                  q' = (if r < h then q else if h < r then q + 1 else if even q then q else q + 1)
              in B64 (sgn m * q') (e + int k))"

fun b64_add :: "binary64 \<Rightarrow> binary64 \<Rightarrow> binary64" where
  "b64_add (B64 m1 e1) (B64 m2 e2) =
     (let e = min e1 e2
      in round_to_53 (m1 * 2 ^ nat (e1 - e) + m2 * 2 ^ nat (e2 - e)) e)"

fun b64_value :: "binary64 \<Rightarrow> real" where
  "b64_value (B64 m e) = (if 0 \<le> e then of_int m * 2 ^ nat e else of_int m / 2 ^ nat (- e))"

instantiation binary64 :: "{plus, zero}"
begin

definition zero_binary64 :: binary64 where
  "zero_binary64 = B64 0 0"

definition plus_binary64 :: "binary64 \<Rightarrow> binary64 \<Rightarrow> binary64" where
  "plus_binary64 x y = b64_add x y"

instance ..

end

definition tenths_route :: "binary64 state" where
  "tenths_route =
     \<lparr>heap = [1 \<mapsto> \<lparr>stop_id = 1, name = ''A'', passengers = 0,
                      dist_to_next = B64 7205759403792794 (- 56),
                      time_to_next = B64 7205759403792794 (- 56), prev = Some 3, next_p = Some 2\<rparr>,
              2 \<mapsto> \<lparr>stop_id = 2, name = ''B'', passengers = 0,
                      dist_to_next = B64 7205759403792794 (- 55),
                      time_to_next = B64 7205759403792794 (- 55), prev = Some 1, next_p = Some 3\<rparr>,
              3 \<mapsto> \<lparr>stop_id = 3, name = ''C'', passengers = 0,
                      dist_to_next = B64 5404319552844595 (- 54),
                      time_to_next = B64 5404319552844595 (- 54), prev = Some 2, next_p = Some 1\<rparr>],
      head = Some 1, next_id = 4\<rparr>"

section \<open>The interactive session\<close>

text \<open>
  Menu options 4 and 5 create the stop and then insert it: option 4 behind the stop that
  \<open>find_by_name\<close> returns for the second name, or at the end when there is none,
  option 5 at a position. \<open>populate_sample\<close> clears the route, sets \<open>next_id\<close> back to
  1 and appends the five stops of the demonstration route; \<open>ms\<close> holds the addresses that
  the calls of \<open>malloc\<close> return. The weights 2.5, 1.2, 0.9 and 1.8 of the source are
  written as fractions.
\<close>

definition menu_insert_after ::
  "addr option \<Rightarrow> string \<Rightarrow> string \<Rightarrow> int \<Rightarrow> 'w \<Rightarrow> 'w \<Rightarrow> 'w state \<Rightarrow> 'w state option" where
  "menu_insert_after m nm after p d t s = do {
     (node, s1) \<leftarrow> create_stop m nm p d t s;
     existing \<leftarrow> find_by_name after s1;
     if existing = None then insert_end node s1 else insert_after existing node s1
   }"

definition menu_insert_at_position ::
  "addr option \<Rightarrow> string \<Rightarrow> int \<Rightarrow> int \<Rightarrow> 'w \<Rightarrow> 'w \<Rightarrow> 'w state \<Rightarrow> 'w state option" where
  "menu_insert_at_position m nm pos p d t s = do {
     (node, s1) \<leftarrow> create_stop m nm p d t s;
     insert_at_position node pos s1
   }"

definition populate_sample :: "addr list \<Rightarrow> 'w::{numeral,inverse} state \<Rightarrow> 'w state option" where
  "populate_sample ms s = do {
     s0 \<leftarrow> clear_route s;
     let s1 = s0\<lparr>next_id := 1\<rparr>;
     s2 \<leftarrow> append_stop (malloc ms) ''Central Station'' 12 (5 / 2) 6 s1;
     s3 \<leftarrow> append_stop (malloc (drop 1 ms)) ''Market Road'' 5 (6 / 5) 3 s2;
     s4 \<leftarrow> append_stop (malloc (drop 2 ms)) ''Library'' 3 (9 / 10) 2 s3;
     s5 \<leftarrow> append_stop (malloc (drop 3 ms)) ''College'' 8 (9 / 5) 4 s4;
     append_stop (malloc (drop 4 ms)) ''Park'' 2 2 5 s5
   }"

text \<open>
  \<open>session s A\<close> holds for the states \<open>s\<close> that the program reaches from its start
  through the menu options that change the state; \<open>A\<close> is the set of the identities that
  \<open>create_stop\<close> has assigned since \<open>next_id\<close> was last set to 1, at the start or by
  \<open>populate_sample\<close>. \<open>malloc\<close> returns an address that is not allocated; in a load
  and in \<open>populate_sample\<close>, which clear the route first, that is an address free in the
  cleared state \<open>s1\<close>. Options 1, 2, 7, 8, 9 and 10 leave the state as it is, and option 0
  ends the session.
\<close>

inductive session :: "'w::{numeral,inverse} state \<Rightarrow> int set \<Rightarrow> bool" where
  start: "session init_state {}"
| option_3:
    "session s A \<Longrightarrow> heap s m = None \<Longrightarrow>
     append_stop (Some m) nm p d t s = Some s' \<Longrightarrow> session s' (insert (next_id s) A)"
| option_4:
    "session s A \<Longrightarrow> heap s m = None \<Longrightarrow>
     menu_insert_after (Some m) nm after p d t s = Some s' \<Longrightarrow> session s' (insert (next_id s) A)"
| option_5:
    "session s A \<Longrightarrow> heap s m = None \<Longrightarrow>
     menu_insert_at_position (Some m) nm pos p d t s = Some s' \<Longrightarrow>
     session s' (insert (next_id s) A)"
| option_6:
    "session s A \<Longrightarrow> delete_by_name nm s = Some (r, s') \<Longrightarrow> session s' A"
| option_11_unopened:
    "session s A \<Longrightarrow> load_from_file scan_lf ms None s = Some (r, s') \<Longrightarrow> session s' A"
| option_11:
    "session s A \<Longrightarrow> clear_route s = Some s1 \<Longrightarrow> distinct ms \<Longrightarrow>
     \<forall>m \<in> set ms. heap s1 m = None \<Longrightarrow>
     length (parsed_rows scan_lf (data_part f)) \<le> length ms \<Longrightarrow>
     load_from_file scan_lf ms (Some f) s = Some (r, s') \<Longrightarrow>
     session s' (A \<union> fst ` set (loaded_stops (next_id s) (parsed_rows scan_lf (data_part f))))"
| option_12:
    "session s A \<Longrightarrow> clear_route s = Some s1 \<Longrightarrow> distinct ms \<Longrightarrow> length ms = 5 \<Longrightarrow>
     \<forall>m \<in> set ms. heap s1 m = None \<Longrightarrow>
     populate_sample ms s = Some s' \<Longrightarrow> session s' {1, 2, 3, 4, 5}"

code_pred session .

text \<open>
  \<open>issued n\<close> is the set of the identities that \<open>n\<close> calls of \<open>create_stop\<close> assign when
  the counter starts at 1. \<open>counted s A\<close> is the invariant of a session: the counter
  stands where \<open>n\<close> increments from 1 leave it and \<open>A\<close> is \<open>issued n\<close>, every allocated
  node is on the ring, and every identity stored is in \<open>A\<close>.
\<close>

definition issued :: "nat \<Rightarrow> int set" where
  "issued n = (\<lambda>j. wrap32 (1 + int j)) ` {..<n}"

definition counted :: "'w state \<Rightarrow> int set \<Rightarrow> bool" where
  "counted s A \<longleftrightarrow>
     (\<exists>n. next_id s = wrap32 (1 + int n) \<and> A = issued n) \<and>
     (\<exists>ps. cyclic s ps \<and> (\<forall>a. heap s a \<noteq> None \<longrightarrow> a \<in> set ps)) \<and>
     (\<forall>a i. id_at s a = Some i \<longrightarrow> i \<in> A)"

section \<open>Properties of the ring\<close>

lemma nth_Suc_neq_0: "distinct ps \<Longrightarrow> Suc i < length ps \<Longrightarrow> ps ! Suc i \<noteq> ps ! 0"
  by (cases ps) auto

lemma zip_rotate1: "length xs = length ys \<Longrightarrow> zip (rotate1 xs) (rotate1 ys) = rotate1 (zip xs ys)"
  by (cases xs; cases ys) auto

lemma ringf_rotate1: "ringf nx pv (rotate1 ps) = ringf nx pv ps"
  by (simp add: ringf_def zip_rotate1)

lemma ringf_rotate: "ringf nx pv (rotate n ps) = ringf nx pv ps"
  by (induction n) (simp_all add: ringf_rotate1)

lemma ringf_swap: "ringf nx pv (xs @ ys) = ringf nx pv (ys @ xs)"
  using ringf_rotate [of nx pv "length xs" "xs @ ys"] by (simp add: rotate_append)

lemma ringf_nth:
  "ringf nx pv ps \<longleftrightarrow>
     distinct ps \<and>
     (\<forall>i<length ps. nx (ps ! i) = Some (ps ! (Suc i mod length ps)) \<and>
                      pv (ps ! (Suc i mod length ps)) = Some (ps ! i))"
proof -
  have "(\<forall>(a, b) \<in> set (zip ps (rotate1 ps)). nx a = Some b \<and> pv b = Some a) \<longleftrightarrow>
        (\<forall>i<length ps. nx (ps ! i) = Some (rotate1 ps ! i) \<and> pv (rotate1 ps ! i) = Some (ps ! i))"
    by (auto simp: set_zip)
  also have "\<dots> \<longleftrightarrow> (\<forall>i<length ps. nx (ps ! i) = Some (ps ! (Suc i mod length ps)) \<and>
                      pv (ps ! (Suc i mod length ps)) = Some (ps ! i))"
    by (simp add: nth_rotate1)
  finally show ?thesis by (simp add: ringf_def)
qed

lemma ringf_snoc:
  assumes "ringf nx pv ps" "ps \<noteq> []" "nd \<notin> set ps"
  shows "ringf (nx(last ps := Some nd, nd := Some (hd ps)))
               (pv(nd := Some (last ps), hd ps := Some nd)) (ps @ [nd])"
proof -
  let ?n = "length ps"
  have d: "distinct ps" and
    e: "\<And>i. i < ?n \<Longrightarrow> nx (ps ! i) = Some (ps ! (Suc i mod ?n)) \<and> pv (ps ! (Suc i mod ?n)) = Some (ps ! i)"
    using assms(1) by (auto simp: ringf_nth)
  have n0: "0 < ?n" using assms(2) by simp
  have l: "last ps = ps ! (?n - 1)" "hd ps = ps ! 0"
    using assms(2) by (simp_all add: last_conv_nth hd_conv_nth)
  show ?thesis
    unfolding ringf_nth
  proof (intro conjI allI impI)
    show "distinct (ps @ [nd])" using d assms(3) by simp
  next
    fix i assume "i < length (ps @ [nd])"
    then consider "i = ?n" | "Suc i = ?n" | "Suc i < ?n" by fastforce
    then show "(nx(last ps \<mapsto> nd, nd \<mapsto> hd ps)) ((ps @ [nd]) ! i) =
         Some ((ps @ [nd]) ! (Suc i mod length (ps @ [nd])))"
    proof cases
      case 1 then show ?thesis using l assms by (simp add: nth_append)
    next
      case 2
      then have "ps ! i = last ps" using l by (metis diff_Suc_1)
      then show ?thesis using 2 assms by (auto simp: nth_append)
    next
      case 3
      then have "ps ! i \<noteq> last ps" using d l by (simp add: nth_eq_iff_index_eq)
      moreover have "ps ! i \<noteq> nd" using 3 assms(3) by (metis Suc_lessD nth_mem)
      ultimately show ?thesis using 3 e [of i] by (simp add: nth_append)
    qed
  next
    fix i assume "i < length (ps @ [nd])"
    then consider "i = ?n" | "Suc i = ?n" | "Suc i < ?n" by fastforce
    then show "(pv(nd \<mapsto> last ps, hd ps \<mapsto> nd)) ((ps @ [nd]) ! (Suc i mod length (ps @ [nd]))) =
         Some ((ps @ [nd]) ! i)"
    proof cases
      case 1 then show ?thesis using l assms by (simp add: nth_append)
    next
      case 2
      then have "ps ! i = last ps" using l by (metis diff_Suc_1)
      then show ?thesis using 2 assms by (auto simp: nth_append)
    next
      case 3
      then have "ps ! Suc i \<noteq> hd ps" using d l assms(2) nth_eq_iff_index_eq [of ps "Suc i" 0] by auto
      moreover have "ps ! Suc i \<noteq> nd" using 3 assms(3) by (metis nth_mem)
      ultimately show ?thesis using 3 e [of i] by (simp add: nth_append)
    qed
  qed
qed

lemma ringf_butlast:
  assumes "ringf nx pv (ps @ [t])" "ps \<noteq> []"
  shows "ringf (nx(last ps := Some (hd ps))) (pv(hd ps := Some (last ps))) ps"
proof -
  let ?n = "length ps"
  let ?qs = "ps @ [t]"
  have d: "distinct ?qs" and
    e: "\<And>i. i < Suc ?n \<Longrightarrow> nx (?qs ! i) = Some (?qs ! (Suc i mod Suc ?n)) \<and> pv (?qs ! (Suc i mod Suc ?n)) = Some (?qs ! i)"
    using assms(1) by (auto simp: ringf_nth)
  have l: "last ps = ps ! (?n - 1)" "hd ps = ps ! 0"
    using assms(2) by (simp_all add: last_conv_nth hd_conv_nth)
  show ?thesis
    unfolding ringf_nth
  proof (intro conjI allI impI)
    show "distinct ps" using d by simp
  next
    fix i assume i: "i < ?n"
    then consider "Suc i = ?n" | "Suc i < ?n" by fastforce
    then show "(nx(last ps \<mapsto> hd ps)) (ps ! i) = Some (ps ! (Suc i mod ?n))"
    proof cases
      case 1
      then have "ps ! i = last ps" using l by (metis diff_Suc_1)
      then show ?thesis using 1 l by auto
    next
      case 2
      then have "ps ! i \<noteq> last ps" using d l by (simp add: nth_eq_iff_index_eq)
      then show ?thesis using 2 e [of i] by (simp add: nth_append)
    qed
  next
    fix i assume i: "i < ?n"
    then consider "Suc i = ?n" | "Suc i < ?n" by fastforce
    then show "(pv(hd ps \<mapsto> last ps)) (ps ! (Suc i mod ?n)) = Some (ps ! i)"
    proof cases
      case 1
      then have "ps ! i = last ps" using l by (metis diff_Suc_1)
      then show ?thesis using 1 l by auto
    next
      case 2
      then have "ps ! Suc i \<noteq> hd ps" using d l assms(2) nth_eq_iff_index_eq [of ps "Suc i" 0] by auto
      then show ?thesis using 2 e [of i] by (simp add: nth_append)
    qed
  qed
qed

lemma payloads_head_upd [simp]: "payloads (s\<lparr>head := x\<rparr>) = payloads s"
  by (simp add: payloads_def fun_eq_iff)

lemma links_only_refl: "links_only s s"
  by (simp add: links_only_def)

lemma links_only_trans: "links_only s s1 \<Longrightarrow> links_only s1 s2 \<Longrightarrow> links_only s s2"
  by (simp add: links_only_def)

lemma payloads_dom: "payloads s' = payloads s \<Longrightarrow> (heap s' a = None) = (heap s a = None)"
  by (metis payloads_def map_option_is_None)

lemma set_next_ok:
  assumes "heap s a \<noteq> None"
  shows "\<exists>s'. set_next (Some a) v s = Some s' \<and> links_only s s' \<and>
              nxt (heap s') = (nxt (heap s))(a := v) \<and> prv (heap s') = prv (heap s)"
  using assms
  by (auto simp: set_next_def store_def links_only_def payloads_def payload_def nxt_def prv_def fun_eq_iff)

lemma set_prev_ok:
  assumes "heap s a \<noteq> None"
  shows "\<exists>s'. set_prev (Some a) v s = Some s' \<and> links_only s s' \<and>
              prv (heap s') = (prv (heap s))(a := v) \<and> nxt (heap s') = nxt (heap s)"
  using assms
  by (auto simp: set_prev_def store_def links_only_def payloads_def payload_def nxt_def prv_def fun_eq_iff)

lemma links_only_alloc: "links_only s s' \<Longrightarrow> heap s a \<noteq> None \<Longrightarrow> heap s' a \<noteq> None"
  by (metis links_only_def payloads_dom)

lemma cyclic_alloc: "cyclic s ps \<Longrightarrow> a \<in> set ps \<Longrightarrow> heap s a \<noteq> None"
  by (auto simp: cyclic_def ringf_nth in_set_conv_nth nxt_def split: option.splits)

lemma cyclic_last_hd:
  assumes "cyclic s ps" "ps \<noteq> []"
  shows "nxt (heap s) (last ps) = Some (hd ps)" "prv (heap s) (hd ps) = Some (last ps)"
proof -
  have "length ps - 1 < length ps" using assms(2) by simp
  moreover have "Suc (length ps - 1) mod length ps = 0" using assms(2) by simp
  ultimately have "nxt (heap s) (ps ! (length ps - 1)) = Some (ps ! 0) \<and>
      prv (heap s) (ps ! 0) = Some (ps ! (length ps - 1))"
    using assms(1) unfolding cyclic_def ringf_nth by metis
  then show "nxt (heap s) (last ps) = Some (hd ps)" "prv (heap s) (hd ps) = Some (last ps)"
    using assms(2) by (simp_all add: last_conv_nth hd_conv_nth)
qed

lemma get_prev_eq: "heap s a \<noteq> None \<Longrightarrow> get_prev (Some a) s = Some (prv (heap s) a)"
  by (auto simp: get_prev_def deref_def prv_def)

lemma get_next_eq: "heap s a \<noteq> None \<Longrightarrow> get_next (Some a) s = Some (nxt (heap s) a)"
  by (auto simp: get_next_def deref_def nxt_def)

lemma head_cyclic: "cyclic s ps \<Longrightarrow> ps \<noteq> [] \<Longrightarrow> head s = Some (hd ps)"
  by (cases ps) (simp_all add: cyclic_def)

lemma insert_end_cyclic:
  assumes "cyclic s ps" "heap s nd \<noteq> None" "nd \<notin> set ps"
  shows "\<exists>s'. insert_end (Some nd) s = Some s' \<and> cyclic s' (ps @ [nd]) \<and>
              next_id s' = next_id s \<and> payloads s' = payloads s"
proof (cases "ps = []")
  case True
  then have h: "head s = None" using assms(1) by (simp add: cyclic_def)
  let ?s1 = "s\<lparr>head := Some nd\<rparr>"
  have a1: "heap ?s1 nd \<noteq> None" using assms(2) by simp
  obtain s2 where s2: "set_prev (Some nd) (Some nd) ?s1 = Some s2" "links_only ?s1 s2"
      "prv (heap s2) = (prv (heap ?s1))(nd := Some nd)" "nxt (heap s2) = nxt (heap ?s1)"
    using set_prev_ok [OF a1] by blast
  have a2: "heap s2 nd \<noteq> None" using links_only_alloc [OF s2(2) a1] .
  obtain s3 where s3: "set_next (Some nd) (Some nd) s2 = Some s3" "links_only s2 s3"
      "nxt (heap s3) = (nxt (heap s2))(nd := Some nd)" "prv (heap s3) = prv (heap s2)"
    using set_next_ok [OF a2] by blast
  have hd2: "head s2 = Some nd" using s2(2) by (simp add: links_only_def)
  have "insert_end (Some nd) s = Some s3"
    using h s2(1) s3(1) hd2 by (simp add: insert_end_def)
  moreover have "cyclic s3 (ps @ [nd])"
    using True s2 s3 hd2 by (simp add: cyclic_def ringf_def links_only_def)
  moreover have "next_id s3 = next_id s" "payloads s3 = payloads s"
    using s2(2) s3(2) by (simp_all add: links_only_def)
  ultimately show ?thesis by blast
next
  case False
  have h: "head s = Some (hd ps)" using head_cyclic [OF assms(1) False] .
  have lp: "last ps \<in> set ps" "hd ps \<in> set ps" using False by simp_all
  have ah: "heap s (hd ps) \<noteq> None" and al: "heap s (last ps) \<noteq> None"
    using cyclic_alloc [OF assms(1)] lp by blast+
  have t: "get_prev (head s) s = Some (Some (last ps))"
    using h get_prev_eq [OF ah] cyclic_last_hd(2) [OF assms(1) False] by simp
  obtain s1 where s1: "set_next (Some (last ps)) (Some nd) s = Some s1" "links_only s s1"
      "nxt (heap s1) = (nxt (heap s))(last ps := Some nd)" "prv (heap s1) = prv (heap s)"
    using set_next_ok [OF al] by blast
  have a1: "heap s1 nd \<noteq> None" using links_only_alloc [OF s1(2) assms(2)] .
  obtain s2 where s2: "set_prev (Some nd) (Some (last ps)) s1 = Some s2" "links_only s1 s2"
      "prv (heap s2) = (prv (heap s1))(nd := Some (last ps))" "nxt (heap s2) = nxt (heap s1)"
    using set_prev_ok [OF a1] by blast
  have a2: "heap s2 nd \<noteq> None" using links_only_alloc [OF s2(2) a1] .
  obtain s3 where s3: "set_next (Some nd) (Some (hd ps)) s2 = Some s3" "links_only s2 s3"
      "nxt (heap s3) = (nxt (heap s2))(nd := Some (hd ps))" "prv (heap s3) = prv (heap s2)"
    using set_next_ok [OF a2] by blast
  have a3: "heap s3 (hd ps) \<noteq> None"
    using links_only_alloc [OF s3(2) links_only_alloc [OF s2(2) links_only_alloc [OF s1(2) ah]]] .
  obtain s4 where s4: "set_prev (Some (hd ps)) (Some nd) s3 = Some s4" "links_only s3 s4"
      "prv (heap s4) = (prv (heap s3))(hd ps := Some nd)" "nxt (heap s4) = nxt (heap s3)"
    using set_prev_ok [OF a3] by blast
  have lo: "links_only s s4"
    using s1(2) s2(2) s3(2) s4(2) by (meson links_only_trans)
  have hds: "head s2 = Some (hd ps)" "head s3 = Some (hd ps)"
    using h s1(2) s2(2) s3(2) by (simp_all add: links_only_def)
  have "insert_end (Some nd) s = Some s4"
    using h t s1(1) s2(1) s3(1) s4(1) hds by (simp add: insert_end_def)
  moreover have "ringf (nxt (heap s4)) (prv (heap s4)) (ps @ [nd])"
    using ringf_snoc [OF _ False assms(3), of "nxt (heap s)" "prv (heap s)"] assms(1)
    by (simp add: cyclic_def s1 s2 s3 s4)
  then have "cyclic s4 (ps @ [nd])"
    using lo h False by (cases ps) (simp_all add: cyclic_def links_only_def)
  ultimately show ?thesis using lo by (auto simp: links_only_def)
qed

lemma ringf_cong:
  assumes "\<And>a. a \<in> set ps \<Longrightarrow> nx' a = nx a \<and> pv' a = pv a"
  shows "ringf nx' pv' ps = ringf nx pv ps"
proof -
  have "nx' (ps ! i) = nx (ps ! i)" "pv' (ps ! (Suc i mod length ps)) = pv (ps ! (Suc i mod length ps))"
    if "i < length ps" for i
  proof -
    have "0 < length ps" using that by auto
    then have "Suc i mod length ps < length ps" by (rule mod_less_divisor)
    then show "nx' (ps ! i) = nx (ps ! i)"
      "pv' (ps ! (Suc i mod length ps)) = pv (ps ! (Suc i mod length ps))"
      using that assms nth_mem by blast+
  qed
  then show ?thesis
    unfolding ringf_nth by auto
qed

lemma ringf_last_hd:
  assumes "ringf nx pv ps" "ps \<noteq> []"
  shows "nx (last ps) = Some (hd ps)" "pv (hd ps) = Some (last ps)"
proof -
  have "length ps - 1 < length ps" using assms(2) by simp
  moreover have "Suc (length ps - 1) mod length ps = 0" using assms(2) by simp
  ultimately have "nx (ps ! (length ps - 1)) = Some (ps ! 0) \<and> pv (ps ! 0) = Some (ps ! (length ps - 1))"
    using assms(1) unfolding ringf_nth by metis
  then show "nx (last ps) = Some (hd ps)" "pv (hd ps) = Some (last ps)"
    using assms(2) by (simp_all add: last_conv_nth hd_conv_nth)
qed

lemma cyclic_next:
  assumes "cyclic s ps" "i < length ps"
  shows "nxt (heap s) (ps ! i) = Some (ps ! (Suc i mod length ps))"
  using assms unfolding cyclic_def ringf_nth by blast

lemma deref_Some: "deref (Some a) s = heap s a"
  by (simp add: deref_def)

lemma find_by_name_loop_cyclic:
  assumes "cyclic s ps" "i < length ps"
  shows "find_by_name_loop nm (Some (ps ! i)) s = Some (find (matches s nm) (drop i ps))"
  using assms(2)
proof (induction "length ps - i" arbitrary: i)
  case 0
  then show ?case by simp
next
  case (Suc k)
  obtain st where st: "heap s (ps ! i) = Some st"
    using cyclic_alloc [OF assms(1), of "ps ! i"] Suc.prems by auto
  have nx: "next_p st = Some (ps ! (Suc i mod length ps))"
    using cyclic_next [OF assms(1) Suc.prems] st by (simp add: nxt_def)
  have dr: "drop i ps = ps ! i # drop (Suc i) ps"
    using Suc.prems by (simp add: Cons_nth_drop_Suc)
  have hd: "head s = Some (ps ! 0)"
    using head_cyclic [OF assms(1)] Suc.prems by (cases ps) auto
  show ?case
  proof (cases "strcasecmp (name st) nm = 0")
    case True
    then show ?thesis
      using st dr by (subst find_by_name_loop.simps) (simp add: deref_Some matches_def)
  next
    case False
    show ?thesis
    proof (cases "Suc i < length ps")
      case True
      have "ps ! Suc i \<noteq> ps ! 0"
        using True assms(1) nth_Suc_neq_0 by (auto simp: cyclic_def ringf_def)
      moreover have "find_by_name_loop nm (Some (ps ! Suc i)) s = Some (find (matches s nm) (drop (Suc i) ps))"
        using Suc.hyps(1) [of "Suc i"] Suc.hyps(2) True by simp
      ultimately show ?thesis
        using st dr nx hd False True
        by (subst find_by_name_loop.simps) (simp add: deref_Some matches_def)
    next
      case F: False
      then have "Suc i = length ps" using Suc.prems by simp
      then show ?thesis
        using st dr nx hd False
        by (subst find_by_name_loop.simps) (simp add: deref_Some matches_def)
    qed
  qed
qed

lemma find_by_name_cyclic:
  assumes "cyclic s ps"
  shows "find_by_name nm s = Some (find (matches s nm) ps)"
proof (cases ps)
  case Nil
  then show ?thesis using assms by (simp add: find_by_name_def cyclic_def)
next
  case (Cons p qs)
  then have "head s = Some (ps ! 0)" using assms by (simp add: cyclic_def)
  then show ?thesis
    using find_by_name_loop_cyclic [OF assms, of 0 nm] Cons by (simp add: find_by_name_def)
qed

lemma free_ok:
  assumes "heap s a \<noteq> None"
  shows "\<exists>s'. free (Some a) s = Some s' \<and> head s' = head s \<and> next_id s' = next_id s \<and>
              payloads s' = (payloads s)(a := None) \<and>
              (\<forall>b. b \<noteq> a \<longrightarrow> nxt (heap s') b = nxt (heap s) b \<and> prv (heap s') b = prv (heap s) b)"
  using assms by (auto simp: free_def payloads_def nxt_def prv_def fun_eq_iff)

lemma payloads_heap_eq: "heap s' = heap s \<Longrightarrow> payloads s' = payloads s"
  by (simp add: payloads_def fun_eq_iff)

lemma delete_by_name_found:
  assumes "cyclic s ps" "find (matches s nm) ps = Some t"
  shows "\<exists>s'. delete_by_name nm s = Some (1, s') \<and> cyclic s' (remove1 t ps) \<and>
              next_id s' = next_id s \<and> payloads s' = (payloads s)(t := None)"
proof -
  have tin: "t \<in> set ps" using assms(2) by (auto simp: find_Some_iff)
  then obtain xs ys where ps: "ps = xs @ t # ys" by (meson split_list)
  have d: "distinct ps" using assms(1) by (simp add: cyclic_def ringf_def)
  have rm: "remove1 t ps = xs @ ys" using d ps by (simp add: remove1_append)
  define qs where "qs = ys @ xs"
  have tq: "t \<notin> set qs" using d ps by (auto simp: qs_def)
  have r: "ringf (nxt (heap s)) (prv (heap s)) (qs @ [t])"
    using assms(1) ringf_swap [of "nxt (heap s)" "prv (heap s)" "xs @ [t]" ys]
    by (simp add: cyclic_def ps qs_def)
  have rmq: "qs = [] \<longleftrightarrow> remove1 t ps = []" using rm by (auto simp: qs_def)
  have inps: "set qs \<subseteq> set ps" using ps by (auto simp: qs_def)
  have at: "heap s t \<noteq> None" using cyclic_alloc [OF assms(1) tin] .
  have f: "find_by_name nm s = Some (Some t)"
    using find_by_name_cyclic [OF assms(1)] assms(2) by simp
  have nt: "nxt (heap s) t = Some (hd (qs @ [t]))"
    using ringf_last_hd(1) [OF r] by simp
  show ?thesis
  proof (cases "qs = []")
    case True
    then have n: "get_next (Some t) s = Some (Some t)"
      using nt get_next_eq [OF at] by simp
    obtain s1 where s1: "free (Some t) s = Some s1" "head s1 = head s" "next_id s1 = next_id s"
        "payloads s1 = (payloads s)(t := None)"
      using free_ok [OF at] by blast
    have "delete_by_name nm s = Some (1, s1\<lparr>head := None\<rparr>)"
      using f n s1(1) by (simp add: delete_by_name_def)
    moreover have "cyclic (s1\<lparr>head := None\<rparr>) (remove1 t ps)"
      using True rmq by (simp add: cyclic_def ringf_def)
    ultimately show ?thesis using s1 by simp
  next
    case False
    have hq: "hd (qs @ [t]) = hd qs" using False by (simp add: hd_append)
    have hdq: "hd qs \<in> set qs" and laq: "last qs \<in> set qs"
      using False hd_in_set [of qs] last_in_set [of qs] by blast+
    have ne: "hd qs \<noteq> t" using hdq tq by metis
    have n: "get_next (Some t) s = Some (Some (hd qs))"
      using nt hq get_next_eq [OF at] by simp
    have r': "ringf (nxt (heap s)) (prv (heap s)) (t # qs)"
      using r ringf_swap [of "nxt (heap s)" "prv (heap s)" "[t]" qs] by simp
    have pt: "prv (heap s) t = Some (last qs)"
      using ringf_last_hd(2) [OF r'] False by simp
    have p: "get_prev (Some t) s = Some (Some (last qs))"
      using pt get_prev_eq [OF at] by simp
    have al: "heap s (last qs) \<noteq> None" and ah: "heap s (hd qs) \<noteq> None"
      using cyclic_alloc [OF assms(1)] laq hdq inps by blast+
    obtain s1 where s1: "set_next (Some (last qs)) (Some (hd qs)) s = Some s1" "links_only s s1"
        "nxt (heap s1) = (nxt (heap s))(last qs := Some (hd qs))" "prv (heap s1) = prv (heap s)"
      using set_next_ok [OF al] by blast
    have a1: "heap s1 (hd qs) \<noteq> None" using links_only_alloc [OF s1(2) ah] .
    obtain s2 where s2: "set_prev (Some (hd qs)) (Some (last qs)) s1 = Some s2" "links_only s1 s2"
        "prv (heap s2) = (prv (heap s1))(hd qs := Some (last qs))" "nxt (heap s2) = nxt (heap s1)"
      using set_prev_ok [OF a1] by blast
    have lo: "links_only s s2" using s1(2) s2(2) by (meson links_only_trans)
    let ?s3 = "if Some t = head s2 then s2\<lparr>head := Some (hd qs)\<rparr> else s2"
    have r2: "ringf (nxt (heap s2)) (prv (heap s2)) qs"
      using ringf_butlast [OF r False] by (simp add: s1 s2)
    have h3: "heap ?s3 = heap s2" by simp
    have a3: "heap ?s3 t \<noteq> None" using links_only_alloc [OF lo at] by simp
    obtain s4 where s4: "free (Some t) ?s3 = Some s4" "head s4 = head ?s3" "next_id s4 = next_id ?s3"
        "payloads s4 = (payloads ?s3)(t := None)"
        "\<forall>b. b \<noteq> t \<longrightarrow> nxt (heap s4) b = nxt (heap ?s3) b \<and> prv (heap s4) b = prv (heap ?s3) b"
      using free_ok [OF a3] by blast
    have "delete_by_name nm s = Some (1, s4)"
      using f n p ne s1(1) s2(1) s4(1) by (simp add: delete_by_name_def)
    moreover have "ringf (nxt (heap s4)) (prv (heap s4)) qs"
      using r2 s4(5) tq ringf_cong [of qs "nxt (heap s4)" "nxt (heap s2)" "prv (heap s4)" "prv (heap s2)"]
      by (metis h3)
    then have "ringf (nxt (heap s4)) (prv (heap s4)) (xs @ ys)"
      using ringf_swap unfolding qs_def by blast
    moreover have "head s4 = (case xs @ ys of [] \<Rightarrow> None | p # _ \<Rightarrow> Some p)"
    proof (cases xs)
      case Nil
      then have "head s = Some t" using assms(1) ps by (simp add: cyclic_def)
      then have "head s4 = Some (hd ys)" using s4(2) lo Nil by (simp add: links_only_def qs_def)
      then show ?thesis using Nil False by (cases ys) (simp_all add: qs_def)
    next
      case (Cons x xs')
      then have "head s = Some x" using assms(1) ps by (simp add: cyclic_def)
      moreover have "x \<noteq> t" using d ps Cons by auto
      ultimately have "head s4 = Some x" using s4(2) lo by (simp add: links_only_def)
      then show ?thesis using Cons by simp
    qed
    moreover have "next_id s4 = next_id s" using s4(3) lo by (simp add: links_only_def)
    moreover have "payloads s4 = (payloads s)(t := None)"
      using s4(4) lo payloads_heap_eq [OF h3] by (simp add: links_only_def)
    ultimately show ?thesis using rm by (simp add: cyclic_def)
  qed
qed

lemma delete_by_name_absent:
  assumes "cyclic s ps" "find (matches s nm) ps = None"
  shows "delete_by_name nm s = Some (0, s)"
  using find_by_name_cyclic [OF assms(1)] assms(2) by (simp add: delete_by_name_def)

lemma insert_after_cyclic:
  assumes "cyclic s ps" "i < length ps" "heap s nd \<noteq> None" "nd \<notin> set ps"
  shows "\<exists>s'. insert_after (Some (ps ! i)) (Some nd) s = Some s' \<and>
              cyclic s' (take (Suc i) ps @ nd # drop (Suc i) ps) \<and>
              next_id s' = next_id s \<and> payloads s' = payloads s"
proof -
  define e where "e = ps ! i"
  define xs where "xs = take (Suc i) ps"
  define ys where "ys = drop (Suc i) ps"
  define qs where "qs = ys @ xs"
  have ps: "ps = xs @ ys" by (simp add: xs_def ys_def)
  have xne: "xs \<noteq> []" using assms(2) by (auto simp: xs_def)
  have lx: "last xs = e" using assms(2) by (simp add: xs_def e_def take_Suc_conv_app_nth)
  have qne: "qs \<noteq> []" using xne by (simp add: qs_def)
  have lq: "last qs = e" using xne lx by (simp add: qs_def)
  have sq: "set qs = set ps" using ps by (auto simp: qs_def)
  have r: "ringf (nxt (heap s)) (prv (heap s)) qs"
    using assms(1) ringf_swap [of "nxt (heap s)" "prv (heap s)" xs ys]
    by (simp add: cyclic_def ps qs_def)
  have ein: "e \<in> set ps" using assms(2) by (simp add: e_def)
  have hin: "hd qs \<in> set ps" using qne sq hd_in_set by blast
  have ae: "heap s e \<noteq> None" and ah: "heap s (hd qs) \<noteq> None"
    using cyclic_alloc [OF assms(1)] ein hin by blast+
  have nx: "get_next (Some e) s = Some (Some (hd qs))"
    using ringf_last_hd(1) [OF r qne] lq get_next_eq [OF ae] by simp
  obtain s1 where s1: "set_next (Some e) (Some nd) s = Some s1" "links_only s s1"
      "nxt (heap s1) = (nxt (heap s))(e := Some nd)" "prv (heap s1) = prv (heap s)"
    using set_next_ok [OF ae] by blast
  have a1: "heap s1 nd \<noteq> None" using links_only_alloc [OF s1(2) assms(3)] .
  obtain s2 where s2: "set_prev (Some nd) (Some e) s1 = Some s2" "links_only s1 s2"
      "prv (heap s2) = (prv (heap s1))(nd := Some e)" "nxt (heap s2) = nxt (heap s1)"
    using set_prev_ok [OF a1] by blast
  have a2: "heap s2 nd \<noteq> None" using links_only_alloc [OF s2(2) a1] .
  obtain s3 where s3: "set_next (Some nd) (Some (hd qs)) s2 = Some s3" "links_only s2 s3"
      "nxt (heap s3) = (nxt (heap s2))(nd := Some (hd qs))" "prv (heap s3) = prv (heap s2)"
    using set_next_ok [OF a2] by blast
  have a3: "heap s3 (hd qs) \<noteq> None"
    using links_only_alloc [OF s3(2) links_only_alloc [OF s2(2) links_only_alloc [OF s1(2) ah]]] .
  obtain s4 where s4: "set_prev (Some (hd qs)) (Some nd) s3 = Some s4" "links_only s3 s4"
      "prv (heap s4) = (prv (heap s3))(hd qs := Some nd)" "nxt (heap s4) = nxt (heap s3)"
    using set_prev_ok [OF a3] by blast
  have lo: "links_only s s4"
    using s1(2) s2(2) s3(2) s4(2) by (meson links_only_trans)
  have "insert_after (Some e) (Some nd) s = Some s4"
    using nx s1(1) s2(1) s3(1) s4(1) by (simp add: insert_after_def)
  moreover have "ringf (nxt (heap s4)) (prv (heap s4)) (qs @ [nd])"
    using ringf_snoc [OF r qne, of nd] assms(4) sq lq by (simp add: s1 s2 s3 s4)
  then have "ringf (nxt (heap s4)) (prv (heap s4)) ((xs @ [nd]) @ ys)"
    using ringf_swap [of "nxt (heap s4)" "prv (heap s4)" ys "xs @ [nd]"] by (simp add: qs_def)
  then have "cyclic s4 (xs @ nd # ys)"
    using lo assms(1) xne ps by (cases xs) (simp_all add: cyclic_def links_only_def)
  ultimately show ?thesis
    using lo by (auto simp: links_only_def e_def xs_def ys_def)
qed

lemma insert_at_position_loop_cyclic:
  assumes "cyclic s ps" "i < length ps"
  shows "insert_at_position_loop (Some (ps ! i)) idx pos s =
         Some (Some (ps ! (i + min (length ps - 1 - i) (nat (pos - 1 - idx)))))"
  using assms(2)
proof (induction "length ps - i" arbitrary: i idx)
  case 0
  then show ?case by simp
next
  case (Suc k)
  have a: "heap s (ps ! i) \<noteq> None"
    using cyclic_alloc [OF assms(1), of "ps ! i"] Suc.prems by auto
  have nx: "get_next (Some (ps ! i)) s = Some (Some (ps ! (Suc i mod length ps)))"
    using cyclic_next [OF assms(1) Suc.prems] get_next_eq [OF a] by simp
  have hd: "head s = Some (ps ! 0)"
    using head_cyclic [OF assms(1)] Suc.prems by (cases ps) auto
  have d: "distinct ps" using assms(1) by (simp add: cyclic_def ringf_def)
  show ?case
  proof (cases "Suc i < length ps \<and> idx < pos - 1")
    case True
    then have ne: "ps ! Suc i \<noteq> ps ! 0" using d nth_Suc_neq_0 by blast
    define j where "j = i + min (length ps - 1 - i) (nat (pos - 1 - idx))"
    have "length ps - Suc i = k" using Suc.hyps(2) by simp
    then have "insert_at_position_loop (Some (ps ! Suc i)) (idx + 1) pos s =
         Some (Some (ps ! (Suc i + min (length ps - 1 - Suc i) (nat (pos - 1 - (idx + 1))))))"
      using Suc.hyps(1) [of "Suc i" "idx + 1"] True by blast
    moreover have "Suc i + min (length ps - 1 - Suc i) (nat (pos - 1 - (idx + 1))) = j"
      using True unfolding j_def min_def by (auto simp: nat_diff_distrib)
    ultimately have ih: "insert_at_position_loop (Some (ps ! Suc i)) (idx + 1) pos s = Some (Some (ps ! j))"
      by simp
    show ?thesis
      unfolding j_def [symmetric]
      using nx hd ne True ih by (subst insert_at_position_loop.simps) simp
  next
    case False
    then consider "Suc i = length ps" | "Suc i < length ps" "\<not> idx < pos - 1"
      using Suc.prems by linarith
    then show ?thesis
    proof cases
      case 1
      then show ?thesis
        using nx hd by (subst insert_at_position_loop.simps) simp
    next
      case 2
      then show ?thesis
        using nx hd by (subst insert_at_position_loop.simps) simp
    qed
  qed
qed

lemma insert_front_cyclic:
  assumes "cyclic s ps" "ps \<noteq> []" "heap s nd \<noteq> None" "nd \<notin> set ps" "pos \<le> 1"
  shows "\<exists>s'. insert_at_position (Some nd) pos s = Some s' \<and> cyclic s' (nd # ps) \<and>
              next_id s' = next_id s \<and> payloads s' = payloads s"
proof -
  have h: "head s = Some (hd ps)" using head_cyclic [OF assms(1,2)] .
  have lp: "last ps \<in> set ps" "hd ps \<in> set ps" using assms(2) by simp_all
  have ah: "heap s (hd ps) \<noteq> None" and al: "heap s (last ps) \<noteq> None"
    using cyclic_alloc [OF assms(1)] lp by blast+
  have ne: "nd \<noteq> last ps" using assms(4) lp by metis
  have t: "get_prev (head s) s = Some (Some (last ps))"
    using h get_prev_eq [OF ah] cyclic_last_hd(2) [OF assms(1,2)] by simp
  obtain s1 where s1: "set_next (Some nd) (Some (hd ps)) s = Some s1" "links_only s s1"
      "nxt (heap s1) = (nxt (heap s))(nd := Some (hd ps))" "prv (heap s1) = prv (heap s)"
    using set_next_ok [OF assms(3)] by blast
  have a1: "heap s1 nd \<noteq> None" using links_only_alloc [OF s1(2) assms(3)] .
  obtain s2 where s2: "set_prev (Some nd) (Some (last ps)) s1 = Some s2" "links_only s1 s2"
      "prv (heap s2) = (prv (heap s1))(nd := Some (last ps))" "nxt (heap s2) = nxt (heap s1)"
    using set_prev_ok [OF a1] by blast
  have a2: "heap s2 (last ps) \<noteq> None"
    using links_only_alloc [OF s2(2) links_only_alloc [OF s1(2) al]] .
  obtain s3 where s3: "set_next (Some (last ps)) (Some nd) s2 = Some s3" "links_only s2 s3"
      "nxt (heap s3) = (nxt (heap s2))(last ps := Some nd)" "prv (heap s3) = prv (heap s2)"
    using set_next_ok [OF a2] by blast
  have a3: "heap s3 (hd ps) \<noteq> None"
    using links_only_alloc [OF s3(2) links_only_alloc [OF s2(2) links_only_alloc [OF s1(2) ah]]] .
  obtain s4 where s4: "set_prev (Some (hd ps)) (Some nd) s3 = Some s4" "links_only s3 s4"
      "prv (heap s4) = (prv (heap s3))(hd ps := Some nd)" "nxt (heap s4) = nxt (heap s3)"
    using set_prev_ok [OF a3] by blast
  have lo: "links_only s s4"
    using s1(2) s2(2) s3(2) s4(2) by (meson links_only_trans)
  have hds: "head s3 = Some (hd ps)"
    using h s1(2) s2(2) s3(2) by (simp add: links_only_def)
  let ?s5 = "s4\<lparr>head := Some nd\<rparr>"
  have "insert_at_position (Some nd) pos s = Some ?s5"
    using h t s1(1) s2(1) s3(1) s4(1) hds assms(5) by (simp add: insert_at_position_def)
  moreover have "nxt (heap s4) = (nxt (heap s))(last ps := Some nd, nd := Some (hd ps))"
    using ne by (simp add: s1 s2 s3 s4 fun_upd_twist)
  then have "ringf (nxt (heap s4)) (prv (heap s4)) (ps @ [nd])"
    using ringf_snoc [OF _ assms(2,4), of "nxt (heap s)" "prv (heap s)"] assms(1)
    by (simp add: cyclic_def s1 s2 s3 s4)
  then have "ringf (nxt (heap s4)) (prv (heap s4)) ([nd] @ ps)"
    using ringf_swap by blast
  then have "cyclic ?s5 (nd # ps)" by (simp add: cyclic_def)
  ultimately show ?thesis using lo by (auto simp: links_only_def)
qed

lemma insert_at_position_cyclic:
  assumes "cyclic s ps" "heap s nd \<noteq> None" "nd \<notin> set ps"
  shows "\<exists>s'. insert_at_position (Some nd) pos s = Some s' \<and>
              cyclic s' (take (nat (pos - 1)) ps @ nd # drop (nat (pos - 1)) ps) \<and>
              next_id s' = next_id s \<and> payloads s' = payloads s"
proof -
  consider "ps = []" | "ps \<noteq> []" "pos \<le> 1" | "ps \<noteq> []" "1 < pos" by linarith
  then show ?thesis
  proof cases
    case 1
    then have h: "head s = None" using assms(1) by (simp add: cyclic_def)
    then have "insert_at_position (Some nd) pos s = insert_end (Some nd) s"
      by (simp add: insert_at_position_def insert_end_def)
    then show ?thesis using insert_end_cyclic [OF assms] 1 by simp
  next
    case 2
    then have "nat (pos - 1) = 0" by simp
    then show ?thesis using insert_front_cyclic [OF assms(1) 2(1) assms(2,3) 2(2)] by simp
  next
    case 3
    have h: "head s = Some (ps ! 0)" using head_cyclic [OF assms(1) 3(1)] 3(1) by (simp add: hd_conv_nth)
    have l: "0 < length ps" using 3(1) by simp
    define j where "j = min (length ps - 1) (nat (pos - 1 - 1))"
    have w: "insert_at_position_loop (head s) 1 pos s = Some (Some (ps ! j))"
      using insert_at_position_loop_cyclic [OF assms(1) l, of 1 pos] h by (simp add: j_def)
    have jl: "j < length ps" using l by (simp add: j_def min_less_iff_disj)
    have "Suc j = min (length ps) (nat (pos - 1))"
      using 3 l unfolding j_def min_def by (auto simp: nat_diff_distrib)
    then have "take (Suc j) ps = take (nat (pos - 1)) ps" "drop (Suc j) ps = drop (nat (pos - 1)) ps"
      by (simp_all add: min_def split: if_splits)
    moreover have "insert_at_position (Some nd) pos s = insert_after (Some (ps ! j)) (Some nd) s"
      using h w 3(2) by (simp add: insert_at_position_def)
    ultimately show ?thesis
      using insert_after_cyclic [OF assms(1) jl assms(2,3)] by simp
  qed
qed

lemma clear_route_loop_cyclic:
  assumes "distinct ps" "head s = Some (ps ! 0)" "0 < i" "i \<le> length ps"
    "\<forall>j. i \<le> j \<and> j < length ps \<longrightarrow> nxt (heap s) (ps ! j) = Some (ps ! (Suc j mod length ps))"
  shows "clear_route_loop (Some (ps ! (i mod length ps))) s =
         Some (s\<lparr>heap := (\<lambda>a. if a \<in> set (drop i ps) then None else heap s a)\<rparr>)"
  using assms(2-)
proof (induction "length ps - i" arbitrary: i s)
  case 0
  then have "i = length ps" by simp
  then show ?case
    using 0 by (subst clear_route_loop.simps) simp
next
  case (Suc k)
  then have il: "i < length ps" by simp
  then have im: "i mod length ps = i" by simp
  obtain i' where i': "i = Suc i'" using Suc.prems(2) by (cases i) auto
  have ne: "ps ! i \<noteq> ps ! 0" using assms(1) il i' nth_Suc_neq_0 by blast
  have nx: "nxt (heap s) (ps ! i) = Some (ps ! (Suc i mod length ps))"
    using Suc.prems(4) il by simp
  then have a: "heap s (ps ! i) \<noteq> None" by (auto simp: nxt_def split: option.splits)
  let ?s1 = "s\<lparr>heap := (heap s)(ps ! i := None)\<rparr>"
  have f: "free (Some (ps ! i)) s = Some ?s1" using a by (simp add: free_def)
  have "\<forall>j. Suc i \<le> j \<and> j < length ps \<longrightarrow>
          nxt (heap ?s1) (ps ! j) = Some (ps ! (Suc j mod length ps))"
  proof (intro allI impI)
    fix j assume j: "Suc i \<le> j \<and> j < length ps"
    then have "ps ! j \<noteq> ps ! i" using assms(1) il by (simp add: nth_eq_iff_index_eq)
    then show "nxt (heap ?s1) (ps ! j) = Some (ps ! (Suc j mod length ps))"
      using Suc.prems(4) j by (simp add: nxt_def)
  qed
  moreover have "length ps - Suc i = k" using Suc.hyps(2) by simp
  ultimately have ih: "clear_route_loop (Some (ps ! (Suc i mod length ps))) ?s1 =
      Some (?s1\<lparr>heap := (\<lambda>a. if a \<in> set (drop (Suc i) ps) then None else heap ?s1 a)\<rparr>)"
    using Suc.hyps(1) [of "Suc i" ?s1] Suc.prems(1) il by simp
  have "(\<lambda>a. if a \<in> set (drop (Suc i) ps) then None else heap ?s1 a) =
        (\<lambda>a. if a \<in> set (drop i ps) then None else heap s a)"
    using il by (auto simp: fun_eq_iff Cons_nth_drop_Suc [symmetric])
  then show ?case
    using ih f ne nx a Suc.prems(1) im get_next_eq [OF a]
    by (subst clear_route_loop.simps) simp
qed

lemma clear_route_cyclic:
  assumes "cyclic s ps"
  shows "clear_route s =
         Some (s\<lparr>heap := (\<lambda>a. if a \<in> set ps then None else heap s a), head := None\<rparr>)"
proof (cases ps)
  case Nil
  then have "head s = None" using assms by (simp add: cyclic_def)
  then show ?thesis using Nil by (simp add: clear_route_def)
next
  case (Cons p qs)
  then have l: "0 < length ps" by simp
  have h: "head s = Some (ps ! 0)" using assms Cons by (simp add: cyclic_def)
  have d: "distinct ps" using assms by (simp add: cyclic_def ringf_def)
  have a: "heap s (ps ! 0) \<noteq> None" using cyclic_alloc [OF assms, of "ps ! 0"] l by simp
  have nx: "get_next (head s) s = Some (Some (ps ! (1 mod length ps)))"
    using cyclic_next [OF assms l] h get_next_eq [OF a] by simp
  let ?s1 = "s\<lparr>heap := (\<lambda>a. if a \<in> set (drop 1 ps) then None else heap s a)\<rparr>"
  have lp: "clear_route_loop (Some (ps ! (1 mod length ps))) s = Some ?s1"
    using clear_route_loop_cyclic [OF d h, of 1] cyclic_next [OF assms] l by simp
  have "ps ! 0 \<notin> set (drop 1 ps)" using d Cons by simp
  then have a1: "heap ?s1 (ps ! 0) \<noteq> None" using a by simp
  have f: "free (head ?s1) ?s1 = Some (?s1\<lparr>heap := (heap ?s1)(ps ! 0 := None)\<rparr>)"
    using a1 h by (simp add: free_def)
  have "(heap ?s1)(ps ! 0 := None) = (\<lambda>a. if a \<in> set ps then None else heap s a)"
    using Cons by (auto simp: fun_eq_iff)
  then show ?thesis
    using h nx lp f by (simp add: clear_route_def)
qed

lemma create_stop_cyclic:
  assumes "cyclic s qs" "heap s m = None"
  shows "\<exists>s1. create_stop (Some m) nm p d t s = Some (Some m, s1) \<and> cyclic s1 qs \<and>
               heap s1 m \<noteq> None \<and> next_id s1 = wrap32 (next_id s + 1) \<and>
               payloads s1 = (payloads s)(m \<mapsto> (next_id s, take (NAME_LEN - 1) nm, p, d, t))"
proof -
  let ?st = "\<lparr>stop_id = next_id s, name = take (NAME_LEN - 1) nm, passengers = p,
              dist_to_next = d, time_to_next = t, prev = None, next_p = None\<rparr>"
  let ?s1 = "s\<lparr>heap := (heap s)(m \<mapsto> ?st), next_id := wrap32 (next_id s + 1)\<rparr>"
  have c: "create_stop (Some m) nm p d t s = Some (Some m, ?s1)"
    by (simp add: create_stop_def)
  have mq: "m \<notin> set qs" using cyclic_alloc [OF assms(1)] assms(2) by blast
  then have "ringf (nxt (heap ?s1)) (prv (heap ?s1)) qs = ringf (nxt (heap s)) (prv (heap s)) qs"
    by (intro ringf_cong) (auto simp: nxt_def prv_def)
  then have "cyclic ?s1 qs" using assms(1) by (simp add: cyclic_def)
  moreover have "payloads ?s1 = (payloads s)(m \<mapsto> (next_id s, take (NAME_LEN - 1) nm, p, d, t))"
    by (auto simp: payloads_def payload_def fun_eq_iff)
  ultimately show ?thesis using c by simp
qed

lemma load_from_file_loop_cyclic:
  assumes "cyclic s qs" "distinct ms" "\<forall>m \<in> set ms. heap s m = None"
    "length (parsed_rows scan_lf f) \<le> length ms"
  shows "\<exists>s'. load_from_file_loop scan_lf ms f s = Some s' \<and>
              cyclic s' (qs @ take (length (parsed_rows scan_lf f)) ms) \<and>
              next_id s' = advance_id (length (parsed_rows scan_lf f)) (next_id s) \<and>
              map (payloads s') (take (length (parsed_rows scan_lf f)) ms) =
                map Some (loaded_stops (next_id s) (parsed_rows scan_lf f)) \<and>
              (\<forall>a. a \<notin> set (take (length (parsed_rows scan_lf f)) ms) \<longrightarrow> payloads s' a = payloads s a)"
  using assms
proof (induction scan_lf ms f s arbitrary: qs rule: load_from_file_loop.induct)
  case (1 scan_lf ms f s)
  show ?case
  proof (cases "fgets LINE_LEN f")
    case None
    then show ?thesis
      using "1.prems"(1) by (simp add: parsed_rows_def map_filter_simps)
  next
    case (Some lf)
    obtain line f' where lf: "lf = (line, f')" by (cases lf)
    note fg = Some [unfolded lf]
    show ?thesis
    proof (cases "sscanf_row scan_lf line")
      case None
      have pr: "parsed_rows scan_lf f = parsed_rows scan_lf f'"
        using fg None by (simp add: parsed_rows_def map_filter_simps)
      have "load_from_file_loop scan_lf ms f s = load_from_file_loop scan_lf ms f' s"
        using fg None by simp
      then show ?thesis
        using "1.IH"(1) [OF fg refl None "1.prems"(1,2,3)] "1.prems"(4) pr by simp
    next
      case (Some row)
      obtain nm p d t where row: "row = (nm, p, d, t)" by (cases row)
      note sc = Some [unfolded row]
      have pr: "parsed_rows scan_lf f = (nm, p, d, t) # parsed_rows scan_lf f'"
        using fg sc by (simp add: parsed_rows_def map_filter_simps)
      then obtain m ms' where ms: "ms = m # ms'"
        using "1.prems"(4) by (cases ms) auto
      have hm: "heap s m = None" using "1.prems"(3) ms by simp
      obtain s1 where s1: "create_stop (Some m) nm p d t s = Some (Some m, s1)" "cyclic s1 qs"
          "heap s1 m \<noteq> None" "next_id s1 = wrap32 (next_id s + 1)"
          "payloads s1 = (payloads s)(m \<mapsto> (next_id s, take (NAME_LEN - 1) nm, p, d, t))"
        using create_stop_cyclic [OF "1.prems"(1) hm] by blast
      have mq: "m \<notin> set qs" using cyclic_alloc [OF "1.prems"(1)] hm by blast
      obtain s2 where s2: "insert_end (Some m) s1 = Some s2" "cyclic s2 (qs @ [m])"
          "next_id s2 = next_id s1" "payloads s2 = payloads s1"
        using insert_end_cyclic [OF s1(2,3) mq] by blast
      have d': "distinct ms'" and mm: "m \<notin> set ms'" using "1.prems"(2) ms by simp_all
      have fr: "\<forall>m' \<in> set ms'. heap s2 m' = None"
      proof
        fix m' assume m': "m' \<in> set ms'"
        then have "m' \<noteq> m" using mm by blast
        moreover have "heap s m' = None" using "1.prems"(3) ms m' by simp
        ultimately have "payloads s2 m' = None" using s2(4) s1(5) by (simp add: payloads_def)
        then show "heap s2 m' = None" by (simp add: payloads_def)
      qed
      have len: "length (parsed_rows scan_lf f') \<le> length ms'"
        using "1.prems"(4) pr ms by simp
      have cs: "create_stop (malloc ms) nm p d t s = Some (Some m, s1)"
        using s1(1) ms by (simp add: malloc_def)
      have tl: "tl ms = ms'" using ms by simp
      obtain s' where s': "load_from_file_loop scan_lf ms' f' s2 = Some s'"
          "cyclic s' ((qs @ [m]) @ take (length (parsed_rows scan_lf f')) ms')"
          "next_id s' = advance_id (length (parsed_rows scan_lf f')) (next_id s2)"
          "map (payloads s') (take (length (parsed_rows scan_lf f')) ms') =
             map Some (loaded_stops (next_id s2) (parsed_rows scan_lf f'))"
          "\<forall>a. a \<notin> set (take (length (parsed_rows scan_lf f')) ms') \<longrightarrow> payloads s' a = payloads s2 a"
        using "1.IH"(2) [OF fg refl sc refl refl refl cs refl s2(1), unfolded tl, OF s2(2) d' fr len]
        by blast
      have "load_from_file_loop scan_lf ms f s = Some s'"
        using fg sc cs s2(1) s'(1) tl by simp
      moreover have "m \<notin> set (take (length (parsed_rows scan_lf f')) ms')"
        using mm by (meson in_set_takeD)
      then have "payloads s' m = Some (next_id s, take (NAME_LEN - 1) nm, p, d, t)"
        using s'(5) s2(4) s1(5) by simp
      ultimately show ?thesis
        using s'(2,3,4,5) pr ms s2(3,4) s1(4,5) by auto
    qed
  qed
qed

lemma clear_route_released: "cyclic s ps \<Longrightarrow> clear_route s = Some (released ps s)"
  by (simp add: clear_route_cyclic released_def)

lemma released_cyclic: "cyclic (released ps s) []"
  by (simp add: cyclic_def ringf_def released_def)

lemma load_from_file_unfold:
  assumes "cyclic s ps"
  shows "load_from_file scan_lf ms (Some f) s =
         (case fgets LINE_LEN f of
            None \<Rightarrow> Some (0, released ps s)
          | Some (line, f') \<Rightarrow>
              map_option (Pair 1) (load_from_file_loop scan_lf ms f' (released ps s)))"
  using clear_route_released [OF assms]
  by (auto simp: load_from_file_def map_option_case split: option.splits)

lemma load_from_file_cyclic:
  assumes "cyclic s ps" "distinct ms" "\<forall>m \<in> set ms. heap s m = None \<or> m \<in> set ps"
    "fgets LINE_LEN f = Some (line, f')"
    "length (parsed_rows scan_lf f') \<le> length ms"
  shows "\<exists>s'. load_from_file scan_lf ms (Some f) s = Some (1, s') \<and>
              cyclic s' (take (length (parsed_rows scan_lf f')) ms) \<and>
              next_id s' = advance_id (length (parsed_rows scan_lf f')) (next_id s) \<and>
              map (payloads s') (take (length (parsed_rows scan_lf f')) ms) =
                map Some (loaded_stops (next_id s) (parsed_rows scan_lf f'))"
proof -
  have fr: "\<forall>m \<in> set ms. heap (released ps s) m = None"
    using assms(3) by (auto simp: released_def)
  obtain s' where s': "load_from_file_loop scan_lf ms f' (released ps s) = Some s'"
      "cyclic s' ([] @ take (length (parsed_rows scan_lf f')) ms)"
      "next_id s' = advance_id (length (parsed_rows scan_lf f')) (next_id (released ps s))"
      "map (payloads s') (take (length (parsed_rows scan_lf f')) ms) =
         map Some (loaded_stops (next_id (released ps s)) (parsed_rows scan_lf f'))"
    using load_from_file_loop_cyclic [OF released_cyclic assms(2) fr assms(5)] by blast
  have "next_id (released ps s) = next_id s" by (simp add: released_def)
  then show ?thesis
    using s' load_from_file_unfold [OF assms(1), of scan_lf ms f] assms(4) by simp
qed

lemma abc_route_cyclic: "cyclic abc_route [1, 2, 3]"
  by (simp add: cyclic_def ringf_def abc_route_def nxt_def prv_def)

subsection \<open>Evaluating the sample file\<close>

lemmas scan_defs =
  sscanf_row_def scan_int_def scan_lit_def scan_name_def scan_lf_decimal_def c_str_def
  isspace_def isdigit_def digits_val_def digit_val_def wrap32_def strtol_clamp_def NAME_LEN_def
  Let_def

lemma fgets_chars_line:
  "CHR 0x0A \<notin> set l \<Longrightarrow> length l < k \<Longrightarrow>
   fgets_chars k (l @ CHR 0x0A # rest) = (l @ [CHR 0x0A], rest)"
proof (induction l arbitrary: k)
  case Nil
  then show ?case by (cases k) simp_all
next
  case (Cons c l)
  then show ?case by (cases k) auto
qed

lemma fgets_line:
  "CHR 0x0A \<notin> set l \<Longrightarrow> length l < LINE_LEN - 1 \<Longrightarrow>
   fgets LINE_LEN (l @ CHR 0x0A # rest) = Some (l @ [CHR 0x0A], rest)"
  by (simp add: fgets_def fgets_chars_line)

declare file_lines.simps [simp del]

lemma file_lines_Nil: "file_lines [] = []"
  by (subst file_lines.simps) (simp add: fgets_def)

lemma file_lines_line:
  "CHR 0x0A \<notin> set l \<Longrightarrow> length l < LINE_LEN - 1 \<Longrightarrow>
   file_lines (l @ CHR 0x0A # rest) = (l @ [CHR 0x0A]) # file_lines rest"
  using fgets_line [of l rest] by (subst file_lines.simps) simp

lemma sample_file_header: "fgets LINE_LEN sample_file = Some (header_line, sample_rows)"
  using fgets_line [of "''id,name,passengers,dist_to_next,time_to_next''" sample_rows]
  by (simp add: sample_file_def header_line_def LINE_LEN_def)

lemma sample_file_lines:
  "file_lines sample_rows =
   [''1,A,3,1.5,2'' @ [CHR 0x0A], ''bad row'' @ [CHR 0x0A], ''7,B,4,2.5,3'' @ [CHR 0x0A]]"
  using file_lines_line [of "''1,A,3,1.5,2''" "''bad row'' @ [CHR 0x0A] @ ''7,B,4,2.5,3'' @ [CHR 0x0A]"]
    file_lines_line [of "''bad row''" "''7,B,4,2.5,3'' @ [CHR 0x0A]"]
    file_lines_line [of "''7,B,4,2.5,3''" "[]"]
  by (simp add: LINE_LEN_def file_lines_Nil sample_rows_def)

lemma sample_file_rows:
  "parsed_rows scan_lf_decimal sample_rows = [(''A'', 3, 3 / 2, 2), (''B'', 4, 5 / 2, 3)]"
  unfolding parsed_rows_def sample_file_lines
  by (simp add: map_filter_simps scan_defs)

lemma abc_route_fresh: "\<forall>m \<in> set [1, 5]. heap (abc_route :: real state) m = None \<or> m \<in> set [1, 2, 3]"
  by (simp add: abc_route_def)

subsection \<open>Composite operations and traversal\<close>

lemma strcasecmp_refl: "strcasecmp n n = 0"
  by (induction n) simp_all

lemma matches_payloads:
  "matches s nm a = (case payloads s a of None \<Rightarrow> False | Some (i, n, r) \<Rightarrow> strcasecmp n nm = 0)"
  by (simp add: matches_def payloads_def payload_def split: option.splits)

lemma id_at_payloads: "id_at s a = map_option fst (payloads s a)"
  by (simp add: id_at_def payloads_def payload_def option.map_comp comp_def)

lemma append_stop_cyclic:
  assumes "cyclic s ps" "heap s m = None"
  shows "\<exists>s'. append_stop (Some m) nm p d t s = Some s' \<and> cyclic s' (ps @ [m]) \<and>
              next_id s' = wrap32 (next_id s + 1) \<and>
              payloads s' = (payloads s)(m \<mapsto> (next_id s, take (NAME_LEN - 1) nm, p, d, t))"
proof -
  obtain s1 where s1: "create_stop (Some m) nm p d t s = Some (Some m, s1)" "cyclic s1 ps"
      "heap s1 m \<noteq> None" "next_id s1 = wrap32 (next_id s + 1)"
      "payloads s1 = (payloads s)(m \<mapsto> (next_id s, take (NAME_LEN - 1) nm, p, d, t))"
    using create_stop_cyclic [OF assms] by blast
  have mq: "m \<notin> set ps" using cyclic_alloc [OF assms(1)] assms(2) by blast
  obtain s2 where s2: "insert_end (Some m) s1 = Some s2" "cyclic s2 (ps @ [m])"
      "next_id s2 = next_id s1" "payloads s2 = payloads s1"
    using insert_end_cyclic [OF s1(2,3) mq] by blast
  have "append_stop (Some m) nm p d t s = Some s2"
    using s1(1) s2(1) by (simp add: append_stop_def)
  then show ?thesis using s1 s2 by simp
qed

lemma abc_route_payloads:
  "payloads (abc_route :: 'w::numeral state) =
     [1 \<mapsto> (1, ''A'', 0, 1, 2), 2 \<mapsto> (2, ''B'', 0, 3, 4), 3 \<mapsto> (3, ''C'', 0, 5, 6)]"
  by (auto simp: payloads_def payload_def abc_route_def fun_eq_iff)

lemma abc_new_route_create:
  "create_stop (Some 4) ''D'' 0 7 8 (abc_route :: 'w::numeral state) = Some (Some 4, abc_new_route)"
  by (simp add: create_stop_def abc_new_route_def abc_route_def NAME_LEN_def wrap32_def)

lemma abc_new_route_cyclic: "cyclic abc_new_route [1, 2, 3]"
  by (simp add: cyclic_def ringf_def abc_new_route_def abc_route_def nxt_def prv_def)

lemma abc_new_route_payloads:
  "payloads (abc_new_route :: 'w::numeral state) =
     [1 \<mapsto> (1, ''A'', 0, 1, 2), 2 \<mapsto> (2, ''B'', 0, 3, 4), 3 \<mapsto> (3, ''C'', 0, 5, 6),
      4 \<mapsto> (4, ''D'', 0, 7, 8)]"
  by (auto simp: payloads_def payload_def abc_new_route_def abc_route_def fun_eq_iff)

lemma advance_cyclic:
  assumes "cyclic s ps" "i < length ps"
  shows "advance k (Some (ps ! i)) s = Some (Some (ps ! ((i + k) mod length ps)))"
  using assms(2)
proof (induction k arbitrary: i)
  case 0
  then show ?case by simp
next
  case (Suc k)
  have a: "heap s (ps ! i) \<noteq> None"
    using cyclic_alloc [OF assms(1), of "ps ! i"] Suc.prems by auto
  have nx: "get_next (Some (ps ! i)) s = Some (Some (ps ! (Suc i mod length ps)))"
    using cyclic_next [OF assms(1) Suc.prems] get_next_eq [OF a] by simp
  have "0 < length ps" using Suc.prems by auto
  then have l: "Suc i mod length ps < length ps" by (rule mod_less_divisor)
  have "(Suc i mod length ps + k) mod length ps = (i + Suc k) mod length ps"
    by (simp add: mod_add_left_eq)
  then show ?case using nx Suc.IH [OF l] by simp
qed

lemma cyclic_distinct: "cyclic s ps \<Longrightarrow> distinct ps"
  by (simp add: cyclic_def ringf_def)

lemma cyclic_closure:
  assumes "cyclic s ps" "ps \<noteq> []"
  shows "advance (length ps) (head s) s = Some (head s)"
    and "\<forall>k. 0 < k \<and> k < length ps \<longrightarrow> advance k (head s) s \<noteq> Some (head s)"
    and "\<forall>a \<in> set ps. \<exists>k < length ps. advance k (head s) s = Some (Some a)"
proof -
  have l: "0 < length ps" using assms(2) by simp
  have h: "head s = Some (ps ! 0)"
    using head_cyclic [OF assms] assms(2) by (simp add: hd_conv_nth)
  have adv: "advance k (head s) s = Some (Some (ps ! (k mod length ps)))" for k
    using advance_cyclic [OF assms(1) l, of k] h by simp
  show "advance (length ps) (head s) s = Some (head s)"
    using adv [of "length ps"] h by simp
  show "\<forall>k. 0 < k \<and> k < length ps \<longrightarrow> advance k (head s) s \<noteq> Some (head s)"
  proof (intro allI impI)
    fix k assume k: "0 < k \<and> k < length ps"
    then have "ps ! k \<noteq> ps ! 0"
      using cyclic_distinct [OF assms(1)] l by (simp add: nth_eq_iff_index_eq)
    then show "advance k (head s) s \<noteq> Some (head s)" using adv [of k] h k by simp
  qed
  show "\<forall>a \<in> set ps. \<exists>k < length ps. advance k (head s) s = Some (Some a)"
  proof
    fix a assume "a \<in> set ps"
    then obtain k where "k < length ps" "ps ! k = a" by (auto simp: in_set_conv_nth)
    then show "\<exists>k < length ps. advance k (head s) s = Some (Some a)"
      using adv [of k] by auto
  qed
qed

lemma cyclic_neighbours:
  assumes "cyclic s ps" "a \<in> set ps"
  shows "\<exists>b \<in> set ps. nxt (heap s) a = Some b \<and> prv (heap s) b = Some a"
proof -
  obtain i where i: "i < length ps" "ps ! i = a" using assms(2) by (auto simp: in_set_conv_nth)
  have "0 < length ps" using i(1) by auto
  then have "Suc i mod length ps < length ps" by (rule mod_less_divisor)
  then have "ps ! (Suc i mod length ps) \<in> set ps" by simp
  moreover have "nxt (heap s) (ps ! i) = Some (ps ! (Suc i mod length ps)) \<and>
      prv (heap s) (ps ! (Suc i mod length ps)) = Some (ps ! i)"
    using assms(1) i(1) unfolding cyclic_def ringf_nth by blast
  ultimately show ?thesis using i(2) by blast
qed

lemma delete_by_name_cyclic:
  assumes "cyclic s ps"
  shows "\<exists>r s'. delete_by_name nm s = Some (r, s') \<and>
           cyclic s' (case find (matches s nm) ps of None \<Rightarrow> ps | Some t \<Rightarrow> remove1 t ps)"
proof (cases "find (matches s nm) ps")
  case None
  then show ?thesis using delete_by_name_absent [OF assms None] assms by simp
next
  case (Some t)
  then show ?thesis using delete_by_name_found [OF assms Some] by auto
qed

lemma load_from_file_preserves:
  assumes "cyclic s ps" "distinct ms" "\<forall>m \<in> set ms. heap s m = None \<or> m \<in> set ps"
    "length (parsed_rows scan_lf (data_part f)) \<le> length ms"
  shows "\<exists>r s' qs. load_from_file scan_lf ms (Some f) s = Some (r, s') \<and> cyclic s' qs"
proof (cases "fgets LINE_LEN f")
  case None
  then have "load_from_file scan_lf ms (Some f) s = Some (0, released ps s)"
    using load_from_file_unfold [OF assms(1), of scan_lf ms f] by simp
  then show ?thesis using released_cyclic by blast
next
  case (Some lf)
  obtain line f' where lf: "lf = (line, f')" by (cases lf)
  have fg: "fgets LINE_LEN f = Some (line, f')" using Some lf by simp
  then have "data_part f = f'" by (simp add: data_part_def)
  then have "length (parsed_rows scan_lf f') \<le> length ms" using assms(4) by simp
  then show ?thesis using load_from_file_cyclic [OF assms(1,2,3) fg] by blast
qed

lemma init_state_cyclic: "cyclic init_state []"
  by (simp add: cyclic_def ringf_def init_state_def)

subsection \<open>The metrics loops\<close>

lemma legs_Nil [simp]: "legs s [] = []"
  by (simp add: legs_def map_filter_simps)

lemma legs_Cons:
  "heap s a = Some st \<Longrightarrow> legs s (a # ps) = (dist_to_next st, time_to_next st) # legs s ps"
  by (simp add: legs_def map_filter_simps)

lemma legs_append: "legs s (xs @ ys) = legs s xs @ legs s ys"
  by (simp add: legs_def map_filter_def)

lemma total_distance_time_loop_cyclic:
  assumes "cyclic s ps" "k < length ps"
  shows "total_distance_time_loop (Some (ps ! k)) acc s = Some (foldl add_leg acc (legs s (drop k ps)))"
  using assms(2)
proof (induction "length ps - k" arbitrary: k acc)
  case 0
  then show ?case by simp
next
  case (Suc c)
  obtain st where st: "heap s (ps ! k) = Some st"
    using cyclic_alloc [OF assms(1), of "ps ! k"] Suc.prems by auto
  have nx: "next_p st = Some (ps ! (Suc k mod length ps))"
    using cyclic_next [OF assms(1) Suc.prems] st by (simp add: nxt_def)
  have dr: "drop k ps = ps ! k # drop (Suc k) ps"
    using Suc.prems by (simp add: Cons_nth_drop_Suc)
  have hd: "head s = Some (ps ! 0)"
    using head_cyclic [OF assms(1)] Suc.prems by (cases ps) auto
  have lg: "legs s (drop k ps) = (dist_to_next st, time_to_next st) # legs s (drop (Suc k) ps)"
    using dr legs_Cons [OF st] by simp
  show ?case
  proof (cases "Suc k < length ps")
    case True
    have ne: "ps ! Suc k \<noteq> ps ! 0"
      using True cyclic_distinct [OF assms(1)] nth_Suc_neq_0 by blast
    have "length ps - Suc k = c" using Suc.hyps(2) by simp
    then have ih: "total_distance_time_loop (Some (ps ! Suc k)) (add_leg acc (dist_to_next st, time_to_next st)) s =
        Some (foldl add_leg (add_leg acc (dist_to_next st, time_to_next st)) (legs s (drop (Suc k) ps)))"
      using Suc.hyps(1) [of "Suc k"] True by blast
    show ?thesis
      using st nx hd ne True ih lg
      by (subst total_distance_time_loop.simps) (simp add: deref_Some add_leg_def)
  next
    case False
    then have "Suc k = length ps" using Suc.prems by simp
    then show ?thesis
      using st nx hd lg
      by (subst total_distance_time_loop.simps) (simp add: deref_Some add_leg_def)
  qed
qed

lemma total_distance_time_cyclic:
  assumes "cyclic s ps"
  shows "total_distance_time s = Some (foldl add_leg (0, 0) (legs s ps))"
proof (cases ps)
  case Nil
  then show ?thesis using assms by (simp add: total_distance_time_def cyclic_def)
next
  case (Cons p qs)
  then have "head s = Some (ps ! 0)" using assms by (simp add: cyclic_def)
  then show ?thesis
    using total_distance_time_loop_cyclic [OF assms, of 0 "(0, 0)"] Cons
    by (simp add: total_distance_time_def)
qed

lemma distance_between_loop_ring:
  assumes "ringf (nxt (heap s)) (prv (heap s)) qs" "m < length qs" "k < m"
  shows "distance_between_loop (Some (qs ! 0)) (Some (qs ! m)) (Some (qs ! k)) acc s =
         Some (1, foldl add_leg acc (legs s (drop k (take m qs))))"
  using assms(3)
proof (induction "m - k" arbitrary: k acc)
  case 0
  then show ?case by simp
next
  case (Suc c)
  have kl: "k < length qs" using Suc.prems assms(2) by simp
  have d: "distinct qs" using assms(1) by (simp add: ringf_def)
  have sk: "Suc k < length qs" using Suc.prems assms(2) by simp
  have "nxt (heap s) (qs ! k) = Some (qs ! (Suc k mod length qs))"
    using assms(1) kl unfolding ringf_nth by blast
  then have nk: "nxt (heap s) (qs ! k) = Some (qs ! Suc k)" using sk by simp
  then obtain st where st: "heap s (qs ! k) = Some st" "next_p st = Some (qs ! Suc k)"
    by (auto simp: nxt_def split: option.splits)
  have dr: "drop k (take m qs) = qs ! k # drop (Suc k) (take m qs)"
    using Suc.prems assms(2) Cons_nth_drop_Suc [of k "take m qs"] by simp
  have lg: "legs s (drop k (take m qs)) =
      (dist_to_next st, time_to_next st) # legs s (drop (Suc k) (take m qs))"
    using dr legs_Cons [OF st(1)] by simp
  show ?case
  proof (cases "Suc k = m")
    case True
    then show ?thesis
      using st lg by (subst distance_between_loop.simps) (simp add: deref_Some add_leg_def)
  next
    case False
    then have lt: "Suc k < m" using Suc.prems by simp
    have n1: "qs ! Suc k \<noteq> qs ! m"
      using d lt assms(2) sk by (simp add: nth_eq_iff_index_eq)
    have n2: "qs ! Suc k \<noteq> qs ! 0" using d sk nth_Suc_neq_0 by blast
    have "m - Suc k = c" using Suc.hyps(2) by simp
    then have ih: "distance_between_loop (Some (qs ! 0)) (Some (qs ! m)) (Some (qs ! Suc k))
        (add_leg acc (dist_to_next st, time_to_next st)) s =
        Some (1, foldl add_leg (add_leg acc (dist_to_next st, time_to_next st))
          (legs s (drop (Suc k) (take m qs))))"
      using Suc.hyps(1) [of "Suc k"] lt by blast
    show ?thesis
      using st lg n1 n2 ih
      by (subst distance_between_loop.simps) (simp add: deref_Some add_leg_def)
  qed
qed

lemma distance_between_cyclic:
  assumes "cyclic s ps" "find_by_name a s = Some (Some (ps ! i))"
    "find_by_name b s = Some (Some (ps ! j))" "i < length ps" "j < length ps" "i \<noteq> j"
  shows "distance_between a b s =
         Some (1, foldl add_leg (0, 0)
           (legs s (take ((j + length ps - i) mod length ps) (rotate i ps))))"
proof -
  let ?n = "length ps"
  let ?m = "(j + ?n - i) mod ?n"
  let ?qs = "rotate i ps"
  have n0: "0 < ?n" using assms(4) by auto
  have d: "distinct ps" using cyclic_distinct [OF assms(1)] .
  have r: "ringf (nxt (heap s)) (prv (heap s)) ?qs"
    using assms(1) by (simp add: cyclic_def ringf_rotate)
  have ml: "?m < length ?qs" using n0 by simp
  have q0: "?qs ! 0 = ps ! i" using assms(4) n0 by (simp add: nth_rotate)
  have "(i + ?m) mod ?n = j"
  proof -
    have "(i + ?m) mod ?n = (i + (j + ?n - i)) mod ?n" by (simp add: mod_add_right_eq)
    also have "\<dots> = (j + ?n) mod ?n" using assms(4) by simp
    also have "\<dots> = j" using assms(5) by simp
    finally show ?thesis .
  qed
  then have qm: "?qs ! ?m = ps ! j" using ml by (simp add: nth_rotate)
  have m0: "0 < ?m"
  proof (rule ccontr)
    assume "\<not> 0 < ?m"
    then have "?qs ! ?m = ?qs ! 0" by simp
    then have "ps ! j = ps ! i" using qm q0 by simp
    then show False using d assms(4,5,6) by (simp add: nth_eq_iff_index_eq)
  qed
  have ne: "ps ! i \<noteq> ps ! j" using d assms(4,5,6) by (simp add: nth_eq_iff_index_eq)
  have hd: "head s \<noteq> None" using head_cyclic [OF assms(1)] n0 by auto
  have "distance_between_loop (Some (?qs ! 0)) (Some (?qs ! ?m)) (Some (?qs ! 0)) (0, 0) s =
      Some (1, foldl add_leg (0, 0) (legs s (drop 0 (take ?m ?qs))))"
    using distance_between_loop_ring [OF r ml m0] .
  then show ?thesis
    using assms(2,3) ne hd q0 qm by (simp add: distance_between_def)
qed

lemma foldl_add_leg:
  fixes acc :: "'w::comm_monoid_add \<times> 'w"
  shows "foldl add_leg acc ls =
         (fst acc + sum_list (map fst ls), snd acc + sum_list (map snd ls))"
  by (induction ls arbitrary: acc) (simp_all add: add_leg_def add.assoc)

lemma sum_legs_rotate:
  fixes s :: "'w::comm_monoid_add state" and f :: "'w \<times> 'w \<Rightarrow> 'w"
  shows "sum_list (map f (legs s (rotate i ps))) = sum_list (map f (legs s ps))"
proof -
  let ?k = "i mod length ps"
  have "legs s ps = legs s (take ?k ps) @ legs s (drop ?k ps)"
    by (metis legs_append append_take_drop_id)
  then have "sum_list (map f (legs s ps)) =
      sum_list (map f (legs s (take ?k ps))) + sum_list (map f (legs s (drop ?k ps)))"
    by simp
  moreover have "sum_list (map f (legs s (rotate i ps))) =
        sum_list (map f (legs s (drop ?k ps))) + sum_list (map f (legs s (take ?k ps)))"
    by (simp add: rotate_drop_take legs_append)
  ultimately show ?thesis by (simp add: add.commute)
qed

lemma find_by_name_index:
  assumes "cyclic s ps" "find_by_name a s = Some (Some x)"
  obtains i where "i < length ps" "ps ! i = x"
proof -
  have "find (matches s a) ps = Some x"
    using find_by_name_cyclic [OF assms(1), of a] assms(2) by simp
  then have "x \<in> set ps" by (auto simp: find_Some_iff)
  then show ?thesis using that by (auto simp: in_set_conv_nth)
qed

declare bit_length.simps [simp del]

lemma bit_length_numeral [simp]:
  "bit_length 0 = 0"
  "bit_length (numeral k) = Suc (bit_length (numeral k div 2))"
  by (simp_all add: bit_length.simps [of 0] bit_length.simps [of "numeral k"])

lemma bit_length_Suc_0 [simp]: "bit_length (Suc 0) = Suc 0"
  by (simp add: bit_length.simps [of "Suc 0"])

lemma tenths_route_cyclic: "cyclic tenths_route [1, 2, 3]"
  by (simp add: cyclic_def ringf_def tenths_route_def nxt_def prv_def)

lemma tenths_route_find:
  "find_by_name ''A'' tenths_route = Some (Some ([1, 2, 3] ! 0))"
  "find_by_name ''B'' tenths_route = Some (Some ([1, 2, 3] ! 1))"
  using find_by_name_cyclic [OF tenths_route_cyclic]
  by (simp_all add: matches_def tenths_route_def tolower_def)

lemma abc_route_find:
  "find_by_name ''A'' (abc_route :: real state) = Some (Some ([1, 2, 3] ! 0))"
  "find_by_name ''C'' (abc_route :: real state) = Some (Some ([1, 2, 3] ! 2))"
  using find_by_name_cyclic [OF abc_route_cyclic [where ?'a = real]]
  by (simp_all add: matches_def abc_route_def tolower_def)

subsection \<open>Writing rows and reading them back\<close>

lemma of_char_digit_char: "d < 10 \<Longrightarrow> of_char (digit_char d) = (48 + d :: nat)"
  by (simp add: digit_char_def)

lemma isdigit_digit_char: "d < 10 \<Longrightarrow> isdigit (digit_char d)"
  by (simp add: isdigit_def of_char_digit_char)

lemma digit_val_digit_char: "d < 10 \<Longrightarrow> digit_val (digit_char d) = d"
  by (simp add: digit_val_def of_char_digit_char)

lemma digits_isdigit: "c \<in> set (digits n) \<Longrightarrow> isdigit c"
proof (induction n rule: digits.induct)
  case (1 n)
  show ?case
  proof (cases "n < 10")
    case True
    then show ?thesis using "1.prems" digits.simps [of n] by (simp add: isdigit_digit_char)
  next
    case False
    then have "c \<in> set (digits (n div 10)) \<or> c = digit_char (n mod 10)"
      using "1.prems" digits.simps [of n] by auto
    then show ?thesis using "1.IH" False by (auto simp: isdigit_digit_char)
  qed
qed

lemma digits_not_Nil: "digits n \<noteq> []"
  by (subst digits.simps) simp

lemma digits_val_snoc: "digits_val (ds @ [c]) = 10 * digits_val ds + digit_val c"
  by (simp add: digits_val_def)

lemma digits_val_digits: "digits_val (digits n) = n"
proof (induction n rule: digits.induct)
  case (1 n)
  show ?case
  proof (cases "n < 10")
    case True
    then show ?thesis by (subst digits.simps) (simp add: digits_val_def digit_val_digit_char)
  next
    case False
    then have "digits_val (digits n) = 10 * digits_val (digits (n div 10)) + digit_val (digit_char (n mod 10))"
      by (subst digits.simps) (simp add: digits_val_snoc)
    then show ?thesis using "1.IH" False by (simp add: digit_val_digit_char)
  qed
qed

lemma isdigit_simps [simp]:
  "\<not> isdigit (CHR '','')" "\<not> isdigit (CHR ''-'')" "\<not> isdigit (CHR ''+'')" "\<not> isdigit (CHR 0x0A)"
  "\<not> isdigit (CHR 0x00)" "\<not> isdigit (CHR ''.'')"
  by (simp_all add: isdigit_def)

lemma isdigit_not_space: "isdigit c \<Longrightarrow> \<not> isspace c"
  by (auto simp: isdigit_def isspace_def)

lemma takeWhile_digits: "\<not> isdigit c \<Longrightarrow> takeWhile isdigit (digits n @ c # rest) = digits n"
  by (simp add: takeWhile_append2 digits_isdigit)

lemma dropWhile_digits: "\<not> isdigit c \<Longrightarrow> dropWhile isdigit (digits n @ c # rest) = c # rest"
  by (simp add: dropWhile_append2 digits_isdigit)

lemma hd_digits: "isdigit (hd (digits n))"
  using digits_not_Nil [of n] digits_isdigit [of "hd (digits n)" n] by simp

lemma wrap32_id: "in_int_range i \<Longrightarrow> wrap32 (strtol_clamp i) = i"
  by (simp add: in_int_range_def wrap32_def strtol_clamp_def)

lemma scan_int_print_int:
  assumes "in_int_range i" "\<not> isdigit c"
  shows "scan_int (print_int i @ c # rest) = Some (i, c # rest)"
proof (cases "i < 0")
  case True
  have sp: "\<not> isspace (CHR ''-'')" by (simp add: isspace_def)
  have "dropWhile isspace (print_int i @ c # rest) = CHR ''-'' # digits (nat (- i)) @ c # rest"
    using True sp by (simp add: print_int_def)
  then show ?thesis
    using True assms digits_not_Nil [of "nat (- i)"]
    by (simp add: scan_int_def Let_def takeWhile_digits dropWhile_digits digits_val_digits wrap32_id)
next
  case False
  obtain d ds where ds: "digits (nat i) = d # ds"
    using digits_not_Nil [of "nat i"] by (cases "digits (nat i)") auto
  have dd: "isdigit d" using hd_digits [of "nat i"] ds by simp
  then have nd: "d \<noteq> CHR ''-''" "d \<noteq> CHR ''+''" "\<not> isspace d"
    using isdigit_not_space by (auto simp: isdigit_def)
  have dw: "dropWhile isspace (print_int i @ c # rest) = digits (nat i) @ c # rest"
    using False nd ds by (simp add: print_int_def)
  have hds: "hd (digits (nat i) @ c # rest) = d" using ds by simp
  show ?thesis
    using False assms nd hds digits_not_Nil [of "nat i"] wrap32_id [OF assms(1)]
    by (simp add: scan_int_def Let_def dw takeWhile_digits dropWhile_digits digits_val_digits)
qed

lemma scan_name_ok:
  assumes "nm \<noteq> []" "CHR '','' \<notin> set nm" "length nm < NAME_LEN"
  shows "scan_name (nm @ CHR '','' # rest) = Some (nm, CHR '','' # rest)"
proof -
  have "takeWhile (\<lambda>c. c \<noteq> CHR '','') (nm @ CHR '','' # rest) = nm"
    using assms(2) by (induction nm) auto
  then show ?thesis using assms(1,3) by (simp add: scan_name_def Let_def)
qed

lemma plain_digits: "plain_text (digits n)"
  unfolding plain_text_def using digits_isdigit [of _ n] isdigit_simps by blast

lemma plain_print_int: "plain_text (print_int i)"
  using plain_digits by (simp add: print_int_def plain_text_def)

lemma plain_append: "plain_text (xs @ ys) \<longleftrightarrow> plain_text xs \<and> plain_text ys"
  by (auto simp: plain_text_def)

lemma format_row_body: "format_row fmt_f st = row_body fmt_f st @ [CHR 0x0A]"
  by (simp add: format_row_def row_body_def)

lemma row_body_plain:
  assumes "round_trips fmt_f scan_lf reread st"
  shows "plain_text (row_body fmt_f st)"
  using assms plain_print_int
  by (simp add: round_trips_def row_body_def plain_append) (simp add: plain_text_def)

lemma sscanf_row_format_row:
  assumes "round_trips fmt_f scan_lf reread st"
  shows "sscanf_row scan_lf (format_row fmt_f st) =
         Some (name st, passengers st, reread (dist_to_next st), reread (time_to_next st))"
proof -
  have pl: "plain_text (row_body fmt_f st)" using row_body_plain [OF assms] .
  have "c_str (format_row fmt_f st) = format_row fmt_f st"
    unfolding c_str_def format_row_body using pl
    by (intro takeWhile_eq_all_conv [THEN iffD2]) (auto simp: plain_text_def)
  moreover obtain rest where
    t: "scan_lf (fmt_f (time_to_next st) @ [CHR 0x0A]) = Some (reread (time_to_next st), rest)"
    using assms by (auto simp: round_trips_def)
  moreover have
    d: "\<And>rest. scan_lf (fmt_f (dist_to_next st) @ CHR '','' # rest) =
        Some (reread (dist_to_next st), CHR '','' # rest)"
    using assms by (simp add: round_trips_def)
  ultimately show ?thesis
    using assms
    by (simp add: sscanf_row_def format_row_def round_trips_def scan_int_print_int scan_name_ok
        scan_lit_def)
qed

lemma stops_Nil [simp]: "stops s [] = []"
  by (simp add: stops_def map_filter_simps)

lemma stops_Cons: "heap s a = Some st \<Longrightarrow> stops s (a # ps) = st # stops s ps"
  by (simp add: stops_def map_filter_simps)

lemma stops_length: "cyclic s ps \<Longrightarrow> set qs \<subseteq> set ps \<Longrightarrow> length (stops s qs) = length qs"
proof (induction qs)
  case Nil
  then show ?case by simp
next
  case (Cons a qs)
  then obtain st where "heap s a = Some st" using cyclic_alloc [of s ps a] by auto
  then show ?case using Cons by (simp add: stops_Cons)
qed

lemma file_lines_rows:
  assumes "\<forall>st \<in> set sts. round_trips fmt_f scan_lf reread st"
  shows "file_lines (concat (map (format_row fmt_f) sts)) = map (format_row fmt_f) sts"
  using assms
proof (induction sts)
  case Nil
  then show ?case by (simp add: file_lines_Nil)
next
  case (Cons st sts)
  have rt: "round_trips fmt_f scan_lf reread st" using Cons.prems by simp
  have "CHR 0x0A \<notin> set (row_body fmt_f st)"
    using row_body_plain [OF rt] by (simp add: plain_text_def)
  moreover have "length (row_body fmt_f st) < LINE_LEN - 1"
    using rt by (simp add: round_trips_def format_row_body LINE_LEN_def)
  ultimately have step: "file_lines (row_body fmt_f st @ CHR 0x0A # concat (map (format_row fmt_f) sts)) =
      (row_body fmt_f st @ [CHR 0x0A]) # file_lines (concat (map (format_row fmt_f) sts))"
    by (rule file_lines_line)
  have ih: "file_lines (concat (map (format_row fmt_f) sts)) = map (format_row fmt_f) sts"
    using Cons by simp
  have "file_lines (concat (map (format_row fmt_f) (st # sts))) =
      file_lines (row_body fmt_f st @ CHR 0x0A # concat (map (format_row fmt_f) sts))"
    by (simp add: format_row_body [of fmt_f st])
  also have "\<dots> = format_row fmt_f st # map (format_row fmt_f) sts"
    unfolding step ih by (simp add: format_row_body [of fmt_f st])
  finally show ?case by simp
qed

lemma parsed_rows_rows:
  assumes "\<forall>st \<in> set sts. round_trips fmt_f scan_lf reread st"
  shows "parsed_rows scan_lf (concat (map (format_row fmt_f) sts)) = map (reread_tuple reread) sts"
proof -
  have "List.map_filter (sscanf_row scan_lf) (map (format_row fmt_f) sts) = map (reread_tuple reread) sts"
    using assms
  proof (induction sts)
    case Nil
    then show ?case by (simp add: map_filter_simps)
  next
    case (Cons st sts)
    have "sscanf_row scan_lf (format_row fmt_f st) = Some (reread_tuple reread st)"
      using sscanf_row_format_row [of fmt_f scan_lf reread st] Cons.prems
      by (simp add: reread_tuple_def)
    then show ?case using Cons by (simp add: map_filter_simps)
  qed
  then show ?thesis by (simp add: parsed_rows_def file_lines_rows [OF assms])
qed

lemma save_to_file_loop_cyclic:
  assumes "cyclic s ps" "k < length ps"
  shows "save_to_file_loop fmt_f (Some (ps ! k)) s =
         Some (concat (map (format_row fmt_f) (stops s (drop k ps))))"
  using assms(2)
proof (induction "length ps - k" arbitrary: k)
  case 0
  then show ?case by simp
next
  case (Suc c)
  obtain st where st: "heap s (ps ! k) = Some st"
    using cyclic_alloc [OF assms(1), of "ps ! k"] Suc.prems by auto
  have nx: "next_p st = Some (ps ! (Suc k mod length ps))"
    using cyclic_next [OF assms(1) Suc.prems] st by (simp add: nxt_def)
  have dr: "drop k ps = ps ! k # drop (Suc k) ps"
    using Suc.prems by (simp add: Cons_nth_drop_Suc)
  have hd: "head s = Some (ps ! 0)"
    using head_cyclic [OF assms(1)] Suc.prems by (cases ps) auto
  have lg: "stops s (drop k ps) = st # stops s (drop (Suc k) ps)"
    using dr stops_Cons [OF st] by simp
  show ?case
  proof (cases "Suc k < length ps")
    case True
    have ne: "ps ! Suc k \<noteq> ps ! 0"
      using True cyclic_distinct [OF assms(1)] nth_Suc_neq_0 by blast
    have "length ps - Suc k = c" using Suc.hyps(2) by simp
    then have ih: "save_to_file_loop fmt_f (Some (ps ! Suc k)) s =
        Some (concat (map (format_row fmt_f) (stops s (drop (Suc k) ps))))"
      using Suc.hyps(1) [of "Suc k"] True by blast
    show ?thesis
      using st nx hd ne True ih lg
      by (subst save_to_file_loop.simps) (simp add: deref_Some)
  next
    case False
    then have "Suc k = length ps" using Suc.prems by simp
    then show ?thesis
      using st nx hd lg
      by (subst save_to_file_loop.simps) (simp add: deref_Some)
  qed
qed

lemma save_to_file_cyclic:
  assumes "cyclic s ps" "ps \<noteq> []"
  shows "save_to_file fmt_f True s =
         Some (1, Some (header_line @ concat (map (format_row fmt_f) (stops s ps))))"
proof -
  have l: "0 < length ps" using assms(2) by simp
  have h: "head s = Some (ps ! 0)"
    using head_cyclic [OF assms] assms(2) by (simp add: hd_conv_nth)
  show ?thesis
    using save_to_file_loop_cyclic [OF assms(1) l, of fmt_f] h
    by (simp add: save_to_file_def header_line_def)
qed

lemma fgets_header: "fgets LINE_LEN (header_line @ rest) = Some (header_line, rest)"
  using fgets_line [of "''id,name,passengers,dist_to_next,time_to_next''" rest]
  by (simp add: header_line_def LINE_LEN_def)

lemma loaded_stops_tuples:
  assumes "\<forall>r \<in> set rows. length (fst r) < NAME_LEN"
  shows "map (\<lambda>(i, r). r) (loaded_stops i rows) = rows"
  using assms
proof (induction rows arbitrary: i)
  case Nil
  then show ?case by simp
next
  case (Cons r rows)
  obtain nm p d t where r: "r = (nm, p, d, t)" by (cases r)
  then have "take (NAME_LEN - 1) nm = nm" using Cons.prems by (simp add: NAME_LEN_def)
  then show ?case using Cons r by simp
qed

lemma tuple_at_payloads: "tuple_at s a = map_option (\<lambda>(i, r). r) (payloads s a)"
  by (simp add: tuple_at_def payloads_def payload_def option.map_comp comp_def)

lemma digits_small: "n < 10 \<Longrightarrow> digits n = [digit_char n]"
  by (subst digits.simps) simp

lemma digits_large: "\<not> n < 10 \<Longrightarrow> digits n = digits (n div 10) @ [digit_char (n mod 10)]"
  by (subst digits.simps) simp

lemma isdigit_chars [simp]:
  "isdigit (CHR ''0'')" "isdigit (CHR ''1'')" "isdigit (CHR ''2'')" "isdigit (CHR ''3'')"
  "isdigit (CHR ''4'')" "isdigit (CHR ''5'')" "isdigit (CHR ''6'')" "isdigit (CHR ''7'')"
  "isdigit (CHR ''8'')" "isdigit (CHR ''9'')"
  by (simp_all add: isdigit_def)

lemma digit_char_chars:
  "digit_char 0 = CHR ''0''" "digit_char 1 = CHR ''1''" "digit_char 2 = CHR ''2''"
  "digit_char 3 = CHR ''3''" "digit_char 4 = CHR ''4''" "digit_char 5 = CHR ''5''"
  "digit_char 6 = CHR ''6''" "digit_char 7 = CHR ''7''" "digit_char 8 = CHR ''8''"
  "digit_char 9 = CHR ''9''" "digit_char (Suc 0) = CHR ''1''"
  by (simp_all add: digit_char_def char_of_eq_iff)

lemma replicate_5: "replicate 5 c = [c, c, c, c, c]"
  by (simp add: numeral_eq_Suc)

lemma fmt_f_decimal_whole:
  "fmt_f_decimal 1 = ''1.000000''" "fmt_f_decimal 2 = ''2.000000''" "fmt_f_decimal 3 = ''3.000000''"
  "fmt_f_decimal 4 = ''4.000000''" "fmt_f_decimal 5 = ''5.000000''" "fmt_f_decimal 6 = ''6.000000''"
  by (simp_all add: fmt_f_decimal_def round_half_even_def Let_def digits_small digit_char_chars
      replicate_5)

lemma scan_lf_decimal_whole:
  "\<not> isdigit c \<Longrightarrow> scan_lf_decimal (''1.000000'' @ c # rest) = Some (1, c # rest)"
  "\<not> isdigit c \<Longrightarrow> scan_lf_decimal (''2.000000'' @ c # rest) = Some (2, c # rest)"
  "\<not> isdigit c \<Longrightarrow> scan_lf_decimal (''3.000000'' @ c # rest) = Some (3, c # rest)"
  "\<not> isdigit c \<Longrightarrow> scan_lf_decimal (''4.000000'' @ c # rest) = Some (4, c # rest)"
  "\<not> isdigit c \<Longrightarrow> scan_lf_decimal (''5.000000'' @ c # rest) = Some (5, c # rest)"
  "\<not> isdigit c \<Longrightarrow> scan_lf_decimal (''6.000000'' @ c # rest) = Some (6, c # rest)"
  by (simp_all add: scan_lf_decimal_def Let_def isdigit_not_space digits_val_def digit_val_def)

lemma abc_route_stops:
  "stops (abc_route :: real state) [1, 2, 3] =
     [\<lparr>stop_id = 1, name = ''A'', passengers = 0, dist_to_next = 1, time_to_next = 2,
        prev = Some 3, next_p = Some 2\<rparr>,
      \<lparr>stop_id = 2, name = ''B'', passengers = 0, dist_to_next = 3, time_to_next = 4,
        prev = Some 1, next_p = Some 3\<rparr>,
      \<lparr>stop_id = 3, name = ''C'', passengers = 0, dist_to_next = 5, time_to_next = 6,
        prev = Some 2, next_p = Some 1\<rparr>]"
  by (simp add: stops_def map_filter_simps abc_route_def)

lemma abc_route_round_trips:
  "\<forall>st \<in> set (stops (abc_route :: real state) [1, 2, 3]).
     round_trips fmt_f_decimal scan_lf_decimal (\<lambda>w. w) st"
  unfolding abc_route_stops
  by (simp add: round_trips_def plain_text_def in_int_range_def NAME_LEN_def LINE_LEN_def
      fmt_f_decimal_whole format_row_def print_int_def digits_small digit_char_chars
      scan_lf_decimal_whole [of "CHR '',''", simplified]
      scan_lf_decimal_whole [of "CHR 0x0A" "[]", simplified])

lemma unnamed_route_cyclic: "cyclic unnamed_route [1]"
  by (simp add: cyclic_def ringf_def unnamed_route_def nxt_def prv_def)

lemma unnamed_route_text:
  "concat (map (format_row fmt_f_decimal) (stops unnamed_route [1])) = unnamed_row @ [CHR 0x0A]"
  by (simp add: stops_def map_filter_simps unnamed_route_def format_row_def print_int_def
      digits_small digit_char_chars fmt_f_decimal_whole unnamed_row_def)

lemma unnamed_row_parsed: "parsed_rows scan_lf_decimal (unnamed_row @ [CHR 0x0A]) = []"
proof -
  have "file_lines (unnamed_row @ CHR 0x0A # []) = [unnamed_row @ [CHR 0x0A]]"
    by (subst file_lines_line) (simp_all add: unnamed_row_def LINE_LEN_def file_lines_Nil)
  then show ?thesis
    by (simp add: parsed_rows_def map_filter_simps) (simp add: unnamed_row_def scan_defs)
qed

subsection \<open>Rows of a file and what \<open>fgets\<close> returns\<close>

declare text_rows.simps [simp del]

lemma text_rows_Nil: "text_rows [] = []"
  by (subst text_rows.simps) simp

lemma text_rows_line:
  "CHR 0x0A \<notin> set l \<Longrightarrow> text_rows (l @ CHR 0x0A # rest) = (l @ [CHR 0x0A]) # text_rows rest"
proof -
  assume n: "CHR 0x0A \<notin> set l"
  have d: "dropWhile (\<lambda>c. c \<noteq> CHR 0x0A) (l @ CHR 0x0A # rest) = CHR 0x0A # rest"
    using n by (induction l) auto
  have t: "takeWhile (\<lambda>c. c \<noteq> CHR 0x0A) (l @ CHR 0x0A # rest) = l"
    using n by (induction l) auto
  show ?thesis by (subst text_rows.simps) (simp add: d t)
qed

lemma text_rows_last: "CHR 0x0A \<notin> set l \<Longrightarrow> l \<noteq> [] \<Longrightarrow> text_rows l = [l]"
proof -
  assume n: "CHR 0x0A \<notin> set l" and l: "l \<noteq> []"
  have d: "dropWhile (\<lambda>c. c \<noteq> CHR 0x0A) l = []"
    using n by (induction l) auto
  show ?thesis using l by (subst text_rows.simps) (simp add: d)
qed

lemma fgets_chars_short:
  "CHR 0x0A \<notin> set l \<Longrightarrow> length l \<le> k \<Longrightarrow> fgets_chars k l = (l, [])"
proof (induction l arbitrary: k)
  case Nil
  then show ?case by (cases k) simp_all
next
  case (Cons c l)
  then show ?case by (cases k) auto
qed

lemma fgets_chars_full:
  "CHR 0x0A \<notin> set l \<Longrightarrow> fgets_chars (length l) (l @ rest) = (l, rest)"
  by (induction l) auto

lemma file_lines_last:
  assumes "CHR 0x0A \<notin> set l" "l \<noteq> []" "length l < LINE_LEN"
  shows "file_lines l = [l]"
proof -
  have "fgets LINE_LEN l = Some (l, [])"
    using assms fgets_chars_short [of l "LINE_LEN - 1"] by (simp add: fgets_def)
  then show ?thesis
    by (subst file_lines.simps) (simp add: file_lines_Nil)
qed

lemma file_lines_text_rows:
  "rows_fit f \<Longrightarrow> file_lines f = text_rows f"
proof (induction f rule: length_induct)
  case (1 f)
  show ?case
  proof (cases "f = []")
    case True
    then show ?thesis by (simp add: file_lines_Nil text_rows_Nil)
  next
    case False
    let ?l = "takeWhile (\<lambda>c. c \<noteq> CHR 0x0A) f"
    have nl: "CHR 0x0A \<notin> set ?l" by (auto dest: set_takeWhileD)
    show ?thesis
    proof (cases "dropWhile (\<lambda>c. c \<noteq> CHR 0x0A) f")
      case Nil
      then have n: "CHR 0x0A \<notin> set f" by (auto simp: dropWhile_eq_Nil_conv)
      have "text_rows f = [f]" using text_rows_last [OF n False] .
      moreover have "length f < LINE_LEN" using "1.prems" calculation by (simp add: rows_fit_def)
      ultimately show ?thesis using file_lines_last [OF n False] by simp
    next
      case (Cons c rest)
      have c: "c = CHR 0x0A"
        using hd_dropWhile [of "\<lambda>c. c \<noteq> CHR 0x0A" f] Cons by simp
      have "?l @ dropWhile (\<lambda>c. c \<noteq> CHR 0x0A) f = f" by (rule takeWhile_dropWhile_id)
      then have f: "f = ?l @ CHR 0x0A # rest"
        using Cons c by simp
      have tr: "text_rows f = (?l @ [CHR 0x0A]) # text_rows rest"
        using text_rows_line [OF nl, of rest] f by simp
      then have len: "length ?l < LINE_LEN - 1" and rf: "rows_fit rest"
        using "1.prems" by (auto simp: rows_fit_def)
      have "length f = length ?l + Suc (length rest)"
        using arg_cong [OF f, of length] by simp
      then have "length rest < length f" by simp
      then have "file_lines rest = text_rows rest" using "1.IH" rf by blast
      moreover have "file_lines f = (?l @ [CHR 0x0A]) # file_lines rest"
        using file_lines_line [OF nl len, of rest] f by simp
      ultimately show ?thesis using tr by simp
    qed
  qed
qed

lemma sscanf_row_Some:
  "sscanf_row scan_lf line = Some (nm, p, d, t) \<longleftrightarrow>
     (\<exists>i r2 r4 r6 r8 r9.
        scan_int (c_str line) = Some (i, CHR '','' # r2) \<and>
        scan_name r2 = Some (nm, CHR '','' # r4) \<and>
        scan_int r4 = Some (p, CHR '','' # r6) \<and>
        scan_lf r6 = Some (d, CHR '','' # r8) \<and>
        scan_lf r8 = Some (t, r9))"
  by (auto simp: sscanf_row_def scan_lit_def split: Option.bind_splits list.splits if_splits)

lemma digits_val_zeros: "digits_val (replicate k (CHR ''0'') @ ds) = digits_val ds"
  unfolding digits_val_def by (induction k) (simp_all add: digit_val_def)

lemma digits_val_Nil: "digits_val [] = 0"
  by (simp add: digits_val_def)

lemma takeWhile_replicate_append:
  "P c \<Longrightarrow> takeWhile P (replicate k c @ rest) = replicate k c @ takeWhile P rest"
  by (induction k) simp_all

lemma dropWhile_replicate_append:
  "P c \<Longrightarrow> dropWhile P (replicate k c @ rest) = dropWhile P rest"
  by (induction k) simp_all

lemma long_row_chunks:
  "file_lines long_row = [''1,A,3,1.5,'' @ replicate 245 (CHR ''0''), ''000007'' @ [CHR 0x0A]]"
proof -
  let ?c1 = "''1,A,3,1.5,'' @ replicate 245 (CHR ''0'')"
  have n: "CHR 0x0A \<notin> set ?c1" by simp
  have l: "length ?c1 = LINE_LEN - 1" by (simp add: LINE_LEN_def)
  have "fgets_chars (length ?c1) (?c1 @ ''000007'' @ [CHR 0x0A]) = (?c1, ''000007'' @ [CHR 0x0A])"
    using n by (rule fgets_chars_full)
  then have "fgets LINE_LEN long_row = Some (?c1, ''000007'' @ [CHR 0x0A])"
    unfolding l by (simp add: fgets_def long_row_def)
  then have "file_lines long_row = ?c1 # file_lines (''000007'' @ [CHR 0x0A])"
    by (subst file_lines.simps) simp
  moreover have "file_lines (''000007'' @ [CHR 0x0A]) = [''000007'' @ [CHR 0x0A]]"
    using file_lines_line [of "''000007''" "[]"] by (simp add: LINE_LEN_def file_lines_Nil)
  ultimately show ?thesis by simp
qed

lemma scan_row_prefix:
  "scan_int (c_str (''1,A,3,1.5,'' @ replicate k (CHR ''0'') @ rest)) =
     Some (1, CHR '','' # ''A,3,1.5,'' @ c_str (replicate k (CHR ''0'') @ rest))"
  "scan_name (''A,3,1.5,'' @ r) = Some (''A'', CHR '','' # ''3,1.5,'' @ r)"
  "scan_int (''3,1.5,'' @ r) = Some (3, CHR '','' # ''1.5,'' @ r)"
  "scan_lf_decimal (''1.5,'' @ r) = Some (3 / 2, CHR '','' # r)"
  by (simp_all add: scan_int_def c_str_def scan_name_def scan_lf_decimal_def isspace_def
      wrap32_def strtol_clamp_def NAME_LEN_def Let_def digits_val_def digit_val_def)

lemma long_row_whole: "sscanf_row scan_lf_decimal long_row = Some (''A'', 3, 3 / 2, 7)"
proof -
  have c: "c_str (replicate 245 (CHR ''0'') @ ''000007'' @ [CHR 0x0A]) =
           replicate 245 (CHR ''0'') @ ''000007'' @ [CHR 0x0A]"
    by (simp add: c_str_def takeWhile_replicate_append)
  have v: "digits_val (replicate 245 (CHR ''0'') @ ''000007'') = 7"
    by (simp add: digits_val_zeros) (simp add: digits_val_def digit_val_def)
  have "scan_lf_decimal (replicate 245 (CHR ''0'') @ ''000007'' @ [CHR 0x0A]) = Some (7, [CHR 0x0A])"
    unfolding scan_lf_decimal_def Let_def
    by (simp add: isspace_def takeWhile_replicate_append dropWhile_replicate_append v digits_val_Nil)
  then show ?thesis
    unfolding long_row_def sscanf_row_Some
    using scan_row_prefix(1) [of 245 "''000007'' @ [CHR 0x0A]"] scan_row_prefix(2,3,4) c
    by (metis append_Cons append_Nil)
qed

lemma long_row_parsed: "parsed_rows scan_lf_decimal long_row = [(''A'', 3, 3 / 2, 0)]"
proof -
  have c: "c_str (replicate 245 (CHR ''0'') @ []) = replicate 245 (CHR ''0'')"
    by (simp add: c_str_def)
  have z: "scan_lf_decimal (replicate 245 (CHR ''0'')) = Some (0, [])"
    unfolding scan_lf_decimal_def Let_def
    using digits_val_zeros [of 245 "[]"] by (simp add: isspace_def digits_val_Nil)
  have 1: "sscanf_row scan_lf_decimal (''1,A,3,1.5,'' @ replicate 245 (CHR ''0'')) = Some (''A'', 3, 3 / 2, 0)"
    unfolding sscanf_row_Some
    using scan_row_prefix(1) [of 245 "[]"] scan_row_prefix(2,3,4) c z
    by (metis append_Cons append_Nil append_Nil2)
  have 2: "sscanf_row scan_lf_decimal (''000007'' @ [CHR 0x0A]) = None"
    by (simp add: scan_defs)
  show ?thesis
    unfolding parsed_rows_def long_row_chunks using 1 2 by (simp add: map_filter_simps)
qed

lemma load_from_file_frame:
  assumes "cyclic s ps" "distinct ms" "\<forall>m \<in> set ms. heap s m = None \<or> m \<in> set ps"
    "fgets LINE_LEN f = Some (line, f')"
    "length (parsed_rows scan_lf f') \<le> length ms"
  shows "\<exists>s'. load_from_file scan_lf ms (Some f) s = Some (1, s') \<and>
              cyclic s' (take (length (parsed_rows scan_lf f')) ms) \<and>
              next_id s' = advance_id (length (parsed_rows scan_lf f')) (next_id s) \<and>
              map (payloads s') (take (length (parsed_rows scan_lf f')) ms) =
                map Some (loaded_stops (next_id s) (parsed_rows scan_lf f')) \<and>
              (\<forall>a. a \<notin> set (take (length (parsed_rows scan_lf f')) ms) \<longrightarrow>
                 payloads s' a = payloads (released ps s) a)"
proof -
  have fr: "\<forall>m \<in> set ms. heap (released ps s) m = None"
    using assms(3) by (auto simp: released_def)
  obtain s' where s': "load_from_file_loop scan_lf ms f' (released ps s) = Some s'"
      "cyclic s' ([] @ take (length (parsed_rows scan_lf f')) ms)"
      "next_id s' = advance_id (length (parsed_rows scan_lf f')) (next_id (released ps s))"
      "map (payloads s') (take (length (parsed_rows scan_lf f')) ms) =
         map Some (loaded_stops (next_id (released ps s)) (parsed_rows scan_lf f'))"
      "\<forall>a. a \<notin> set (take (length (parsed_rows scan_lf f')) ms) \<longrightarrow>
         payloads s' a = payloads (released ps s) a"
    using load_from_file_loop_cyclic [OF released_cyclic assms(2) fr assms(5)] by blast
  have "next_id (released ps s) = next_id s" by (simp add: released_def)
  then show ?thesis
    using s' load_from_file_unfold [OF assms(1), of scan_lf ms f] assms(4) by simp
qed

lemma sample_rows_text:
  "text_rows sample_rows =
   [''1,A,3,1.5,2'' @ [CHR 0x0A], ''bad row'' @ [CHR 0x0A], ''7,B,4,2.5,3'' @ [CHR 0x0A]]"
  using text_rows_line [of "''1,A,3,1.5,2''" "''bad row'' @ [CHR 0x0A] @ ''7,B,4,2.5,3'' @ [CHR 0x0A]"]
    text_rows_line [of "''bad row''" "''7,B,4,2.5,3'' @ [CHR 0x0A]"]
    text_rows_line [of "''7,B,4,2.5,3''" "[]"]
  by (simp add: text_rows_Nil sample_rows_def)

lemma bad_identity_rows:
  "sscanf_row scan_lf_decimal (''1,A,3,1.5,2'' @ [CHR 0x0A]) = Some (''A'', 3, 3 / 2, 2)"
  "sscanf_row scan_lf_decimal (''x,A,3,1.5,2'' @ [CHR 0x0A]) = None"
  "sscanf_row scan_lf_decimal ('',A,3,1.5,2'' @ [CHR 0x0A]) = None"
  by (simp_all add: scan_defs)

lemma bad_identity_parsed:
  "parsed_rows scan_lf_decimal (''x,A,3,1.5,2'' @ [CHR 0x0A]) = []"
  using file_lines_line [of "''x,A,3,1.5,2''" "[]"] bad_identity_rows(2)
  by (simp add: parsed_rows_def LINE_LEN_def file_lines_Nil map_filter_simps)

subsection \<open>Sessions\<close>

lemma payloads_None: "payloads s a = None \<longleftrightarrow> heap s a = None"
  by (simp add: payloads_def)

lemma menu_insert_after_cyclic:
  assumes "cyclic s ps" "heap s m = None"
  shows "\<exists>s' ps'. menu_insert_after (Some m) nm after p d t s = Some s' \<and> cyclic s' ps' \<and>
           set ps' = insert m (set ps) \<and> next_id s' = wrap32 (next_id s + 1) \<and>
           payloads s' = (payloads s)(m \<mapsto> (next_id s, take (NAME_LEN - 1) nm, p, d, t))"
proof -
  obtain s1 where s1: "create_stop (Some m) nm p d t s = Some (Some m, s1)" "cyclic s1 ps"
      "heap s1 m \<noteq> None" "next_id s1 = wrap32 (next_id s + 1)"
      "payloads s1 = (payloads s)(m \<mapsto> (next_id s, take (NAME_LEN - 1) nm, p, d, t))"
    using create_stop_cyclic [OF assms] by blast
  have mq: "m \<notin> set ps" using cyclic_alloc [OF assms(1)] assms(2) by blast
  have f: "find_by_name after s1 = Some (find (matches s1 after) ps)"
    using find_by_name_cyclic [OF s1(2)] .
  show ?thesis
  proof (cases "find (matches s1 after) ps")
    case None
    obtain s2 where s2: "insert_end (Some m) s1 = Some s2" "cyclic s2 (ps @ [m])"
        "next_id s2 = next_id s1" "payloads s2 = payloads s1"
      using insert_end_cyclic [OF s1(2,3) mq] by blast
    have "menu_insert_after (Some m) nm after p d t s = Some s2"
      using s1(1) f None s2(1) by (simp add: menu_insert_after_def)
    moreover have "set (ps @ [m]) = insert m (set ps)" by simp
    ultimately show ?thesis using s2 s1 by metis
  next
    case (Some e)
    then obtain i where i: "i < length ps" "e = ps ! i" by (auto simp: find_Some_iff)
    obtain s2 where s2: "insert_after (Some (ps ! i)) (Some m) s1 = Some s2"
        "cyclic s2 (take (Suc i) ps @ m # drop (Suc i) ps)"
        "next_id s2 = next_id s1" "payloads s2 = payloads s1"
      using insert_after_cyclic [OF s1(2) i(1) s1(3) mq] by blast
    have "menu_insert_after (Some m) nm after p d t s = Some s2"
      using s1(1) f Some i(2) s2(1) by (simp add: menu_insert_after_def)
    moreover have "set (take (Suc i) ps @ m # drop (Suc i) ps) = insert m (set ps)"
      using set_append [of "take (Suc i) ps" "drop (Suc i) ps"] by auto
    ultimately show ?thesis using s2 s1 by metis
  qed
qed

lemma menu_insert_at_position_cyclic:
  assumes "cyclic s ps" "heap s m = None"
  shows "\<exists>s' ps'. menu_insert_at_position (Some m) nm pos p d t s = Some s' \<and> cyclic s' ps' \<and>
           set ps' = insert m (set ps) \<and> next_id s' = wrap32 (next_id s + 1) \<and>
           payloads s' = (payloads s)(m \<mapsto> (next_id s, take (NAME_LEN - 1) nm, p, d, t))"
proof -
  obtain s1 where s1: "create_stop (Some m) nm p d t s = Some (Some m, s1)" "cyclic s1 ps"
      "heap s1 m \<noteq> None" "next_id s1 = wrap32 (next_id s + 1)"
      "payloads s1 = (payloads s)(m \<mapsto> (next_id s, take (NAME_LEN - 1) nm, p, d, t))"
    using create_stop_cyclic [OF assms] by blast
  have mq: "m \<notin> set ps" using cyclic_alloc [OF assms(1)] assms(2) by blast
  obtain s2 where s2: "insert_at_position (Some m) pos s1 = Some s2"
      "cyclic s2 (take (nat (pos - 1)) ps @ m # drop (nat (pos - 1)) ps)"
      "next_id s2 = next_id s1" "payloads s2 = payloads s1"
    using insert_at_position_cyclic [OF s1(2,3) mq] by blast
  have "menu_insert_at_position (Some m) nm pos p d t s = Some s2"
    using s1(1) s2(1) by (simp add: menu_insert_at_position_def)
  moreover have "set (take (nat (pos - 1)) ps @ m # drop (nat (pos - 1)) ps) = insert m (set ps)"
    using set_append [of "take (nat (pos - 1)) ps" "drop (nat (pos - 1)) ps"] by auto
  ultimately show ?thesis using s2 s1 by metis
qed

lemma fresh_after_append:
  "payloads s' = (payloads s)(m \<mapsto> x) \<Longrightarrow> heap s a = None \<Longrightarrow> a \<noteq> m \<Longrightarrow> heap s' a = None"
  using payloads_None [of s' a] payloads_None [of s a] by simp

lemma cyclic_next_id: "cyclic (s\<lparr>next_id := n\<rparr>) ps = cyclic s ps"
  by (simp add: cyclic_def)

lemma populate_sample_cyclic:
  fixes s :: "'w::{numeral,inverse} state"
  assumes "cyclic s ps" "distinct [m1, m2, m3, m4, m5]"
    "\<forall>m \<in> set [m1, m2, m3, m4, m5]. heap (released ps s) m = None"
  shows "\<exists>s'. populate_sample [m1, m2, m3, m4, m5] s = Some s' \<and>
           cyclic s' [m1, m2, m3, m4, m5] \<and> next_id s' = 6 \<and>
           payloads s' = (payloads (released ps s))
             (m1 \<mapsto> (1, ''Central Station'', 12, 5 / 2, 6),
              m2 \<mapsto> (2, ''Market Road'', 5, 6 / 5, 3),
              m3 \<mapsto> (3, ''Library'', 3, 9 / 10, 2),
              m4 \<mapsto> (4, ''College'', 8, 9 / 5, 4),
              m5 \<mapsto> (5, ''Park'', 2, 2, 5))"
proof -
  let ?s1 = "(released ps s)\<lparr>next_id := 1\<rparr>"
  have c1: "cyclic ?s1 []" using released_cyclic [of ps s] by (simp add: cyclic_next_id)
  have p1: "payloads ?s1 = payloads (released ps s)" by (simp add: payloads_def fun_eq_iff)
  have h1: "heap ?s1 m1 = None" using assms(3) by simp
  obtain s2 where s2: "append_stop (Some m1) ''Central Station'' 12 (5 / 2) 6 ?s1 = Some s2"
      "cyclic s2 ([] @ [m1])" "next_id s2 = wrap32 (next_id ?s1 + 1)"
      "payloads s2 = (payloads ?s1)(m1 \<mapsto> (next_id ?s1, take (NAME_LEN - 1) ''Central Station'', 12, 5 / 2, 6))"
    using append_stop_cyclic [OF c1 h1] by blast
  have n2: "next_id s2 = 2" using s2(3) by (simp add: wrap32_def)
  have f2: "heap s2 m = None" if "m \<in> set [m2, m3, m4, m5]" for m
    using fresh_after_append [OF s2(4), of m] that assms(2,3) by auto
  have h2: "heap s2 m2 = None" using f2 by simp
  obtain s3 where s3: "append_stop (Some m2) ''Market Road'' 5 (6 / 5) 3 s2 = Some s3"
      "cyclic s3 (([] @ [m1]) @ [m2])" "next_id s3 = wrap32 (next_id s2 + 1)"
      "payloads s3 = (payloads s2)(m2 \<mapsto> (next_id s2, take (NAME_LEN - 1) ''Market Road'', 5, 6 / 5, 3))"
    using append_stop_cyclic [OF s2(2) h2] by blast
  have n3: "next_id s3 = 3" using s3(3) n2 by (simp add: wrap32_def)
  have f3: "heap s3 m = None" if "m \<in> set [m3, m4, m5]" for m
    using fresh_after_append [OF s3(4), of m] that assms(2) f2 [of m] by auto
  have h3: "heap s3 m3 = None" using f3 by simp
  obtain s4 where s4: "append_stop (Some m3) ''Library'' 3 (9 / 10) 2 s3 = Some s4"
      "cyclic s4 ((([] @ [m1]) @ [m2]) @ [m3])" "next_id s4 = wrap32 (next_id s3 + 1)"
      "payloads s4 = (payloads s3)(m3 \<mapsto> (next_id s3, take (NAME_LEN - 1) ''Library'', 3, 9 / 10, 2))"
    using append_stop_cyclic [OF s3(2) h3] by blast
  have n4: "next_id s4 = 4" using s4(3) n3 by (simp add: wrap32_def)
  have f4: "heap s4 m = None" if "m \<in> set [m4, m5]" for m
    using fresh_after_append [OF s4(4), of m] that assms(2) f3 [of m] by auto
  have h4: "heap s4 m4 = None" using f4 by simp
  obtain s5 where s5: "append_stop (Some m4) ''College'' 8 (9 / 5) 4 s4 = Some s5"
      "cyclic s5 (((([] @ [m1]) @ [m2]) @ [m3]) @ [m4])" "next_id s5 = wrap32 (next_id s4 + 1)"
      "payloads s5 = (payloads s4)(m4 \<mapsto> (next_id s4, take (NAME_LEN - 1) ''College'', 8, 9 / 5, 4))"
    using append_stop_cyclic [OF s4(2) h4] by blast
  have n5: "next_id s5 = 5" using s5(3) n4 by (simp add: wrap32_def)
  have h5: "heap s5 m5 = None"
    using fresh_after_append [OF s5(4), of m5] assms(2) f4 [of m5] by auto
  obtain s6 where s6: "append_stop (Some m5) ''Park'' 2 2 5 s5 = Some s6"
      "cyclic s6 ((((([] @ [m1]) @ [m2]) @ [m3]) @ [m4]) @ [m5])" "next_id s6 = wrap32 (next_id s5 + 1)"
      "payloads s6 = (payloads s5)(m5 \<mapsto> (next_id s5, take (NAME_LEN - 1) ''Park'', 2, 2, 5))"
    using append_stop_cyclic [OF s5(2) h5] by blast
  have n6: "next_id s6 = 6" using s6(3) n5 by (simp add: wrap32_def)
  have "populate_sample [m1, m2, m3, m4, m5] s = Some s6"
    using clear_route_released [OF assms(1)] s2(1) s3(1) s4(1) s5(1) s6(1)
    by (simp add: populate_sample_def malloc_def)
  moreover have "cyclic s6 [m1, m2, m3, m4, m5]" using s6(2) by simp
  moreover have "payloads s6 = (payloads (released ps s))
             (m1 \<mapsto> (1, ''Central Station'', 12, 5 / 2, 6),
              m2 \<mapsto> (2, ''Market Road'', 5, 6 / 5, 3),
              m3 \<mapsto> (3, ''Library'', 3, 9 / 10, 2),
              m4 \<mapsto> (4, ''College'', 8, 9 / 5, 4),
              m5 \<mapsto> (5, ''Park'', 2, 2, 5))"
    using s6(4) s5(4) s4(4) s3(4) s2(4) p1 n2 n3 n4 n5 by (simp add: NAME_LEN_def)
  ultimately show ?thesis using n6 by blast
qed

lemma wrap32_add: "wrap32 (wrap32 x + y) = wrap32 (x + y)"
proof -
  have "wrap32 (wrap32 x + y) =
        ((x + 2147483648) mod 4294967296 + y) mod 4294967296 - 2147483648"
    by (simp add: wrap32_def)
  also have "\<dots> = (x + 2147483648 + y) mod 4294967296 - 2147483648"
    by (simp only: mod_add_left_eq)
  also have "\<dots> = wrap32 (x + y)"
    by (simp add: wrap32_def algebra_simps)
  finally show ?thesis .
qed

lemma wrap32_Suc: "wrap32 (wrap32 (1 + int n) + 1) = wrap32 (1 + int (Suc n))"
  using wrap32_add [of "1 + int n" 1] by (simp add: algebra_simps)

lemma issued_Suc: "issued (Suc n) = insert (wrap32 (1 + int n)) (issued n)"
  by (simp add: issued_def lessThan_Suc)

lemma issued_5: "issued 5 = {1, 2, 3, 4, 5}"
proof -
  have "{..<5 :: nat} = {0, 1, 2, 3, 4}" by auto
  then show ?thesis by (simp add: issued_def wrap32_def)
qed

lemma advance_id_wrap: "advance_id k (wrap32 x) = wrap32 (x + int k)"
proof (induction k arbitrary: x)
  case 0
  then show ?case by simp
next
  case (Suc k)
  have "advance_id (Suc k) (wrap32 x) = advance_id k (wrap32 (x + 1))"
    using wrap32_add [of x 1] by simp
  then show ?case using Suc.IH [of "x + 1"] by (simp add: algebra_simps)
qed

lemma loaded_stops_issued:
  "fst ` set (loaded_stops (wrap32 (1 + int n)) rows) =
   (\<lambda>j. wrap32 (1 + int j)) ` {n ..< n + length rows}"
proof (induction rows arbitrary: n)
  case Nil
  then show ?case by simp
next
  case (Cons r rows)
  obtain nm p d t where r: "r = (nm, p, d, t)" by (cases r)
  note w = wrap32_Suc [of n]
  have e: "{n ..< Suc (n + length rows)} = insert n {Suc n ..< Suc (n + length rows)}"
    by auto
  show ?case
    unfolding r using Cons.IH [of "Suc n"] w by (simp add: e)
qed

lemma issued_Un:
  "issued n \<union> (\<lambda>j. wrap32 (1 + int j)) ` {n ..< n + k} = issued (n + k)"
proof -
  have "{..<n} \<union> {n ..< n + k} = {..<n + k}" by auto
  then show ?thesis unfolding issued_def by (metis image_Un)
qed

lemma wrap32_eq:
  assumes "j < n" "wrap32 (1 + int n) = wrap32 (1 + int j)"
  shows "4294967296 \<le> n - j"
proof -
  have "(1 + int n + 2147483648) mod 4294967296 = (1 + int j + 2147483648) mod 4294967296"
    using assms(2) by (simp add: wrap32_def)
  then have "(4294967296 :: int) dvd (1 + int n + 2147483648) - (1 + int j + 2147483648)"
    by (simp only: mod_eq_dvd_iff)
  then have "(4294967296 :: int) dvd int n - int j" by simp
  moreover have "0 < int n - int j" using assms(1) by simp
  ultimately have "4294967296 \<le> int n - int j" by (rule zdvd_imp_le)
  then show ?thesis by linarith
qed

lemma issued_fresh:
  assumes "card (issued n) < 4294967296"
  shows "wrap32 (1 + int n) \<notin> issued n"
proof
  assume "wrap32 (1 + int n) \<in> issued n"
  then obtain j where j: "j < n" "wrap32 (1 + int n) = wrap32 (1 + int j)"
    by (auto simp: issued_def)
  have n: "4294967296 \<le> n" using wrap32_eq [OF j] by simp
  have "inj_on (\<lambda>j. wrap32 (1 + int j)) {..<4294967296}"
  proof (rule linorder_inj_onI)
    fix x y :: nat
    assume "x < y" "x \<in> {..<4294967296}" "y \<in> {..<4294967296}"
    then show "wrap32 (1 + int x) \<noteq> wrap32 (1 + int y)"
      using wrap32_eq [of x y] by auto
  qed (rule linear)
  then have "card (issued 4294967296) = 4294967296"
    by (simp add: issued_def card_image)
  moreover have "issued 4294967296 \<subseteq> issued n"
    using n by (auto simp: issued_def)
  moreover have "finite (issued n)" by (simp add: issued_def)
  ultimately have "4294967296 \<le> card (issued n)" by (metis card_mono)
  then show False using assms by simp
qed

lemma counted_insert:
  assumes "counted s A" "cyclic s ps"
    "cyclic s' ps'" "set ps' = insert m (set ps)" "next_id s' = wrap32 (next_id s + 1)"
    "payloads s' = (payloads s)(m \<mapsto> (next_id s, x))"
  shows "counted s' (insert (next_id s) A)"
proof -
  obtain qs where qs: "cyclic s qs" "\<forall>a. heap s a \<noteq> None \<longrightarrow> a \<in> set qs"
    using assms(1) by (auto simp: counted_def)
  obtain n where n: "next_id s = wrap32 (1 + int n)" "A = issued n"
    using assms(1) by (auto simp: counted_def)
  have ids: "\<forall>a i. id_at s a = Some i \<longrightarrow> i \<in> A"
    using assms(1) by (auto simp: counted_def)
  have al: "\<forall>a. heap s a \<noteq> None \<longrightarrow> a \<in> set ps"
  proof (intro allI impI)
    fix a assume a: "heap s a \<noteq> None"
    then have "a \<in> set qs" using qs(2) by blast
    then obtain k where k: "k < length qs" "advance k (head s) s = Some (Some a)"
      using cyclic_closure(3) [OF qs(1)] by (cases "qs = []") auto
    have "ps \<noteq> []" using qs(1) assms(2) \<open>a \<in> set qs\<close> by (auto simp: cyclic_def split: list.splits)
    then have l: "0 < length ps" by simp
    have h: "head s = Some (ps ! 0)"
      using head_cyclic [OF assms(2)] \<open>ps \<noteq> []\<close> by (simp add: hd_conv_nth)
    have "advance k (head s) s = Some (Some (ps ! (k mod length ps)))"
      using advance_cyclic [OF assms(2) l, of k] h by simp
    then have "a = ps ! (k mod length ps)" using k(2) by simp
    then show "a \<in> set ps" using l by simp
  qed
  have "next_id s' = wrap32 (1 + int (Suc n))"
    using assms(5) n(1) wrap32_Suc [of n] by simp
  moreover have "insert (next_id s) A = issued (Suc n)"
    using n by (simp add: issued_Suc)
  moreover have "\<forall>a. heap s' a \<noteq> None \<longrightarrow> a \<in> set ps'"
  proof (intro allI impI)
    fix a assume "heap s' a \<noteq> None"
    then have "payloads s' a \<noteq> None" by (simp add: payloads_None)
    then have "a = m \<or> payloads s a \<noteq> None"
      using assms(6) by (cases "a = m") simp_all
    then have "a = m \<or> heap s a \<noteq> None"
      using payloads_None [of s a] by auto
    then show "a \<in> set ps'" using al assms(4) by auto
  qed
  moreover have "\<forall>a i. id_at s' a = Some i \<longrightarrow> i \<in> insert (next_id s) A"
  proof (intro allI impI)
    fix a i assume i: "id_at s' a = Some i"
    show "i \<in> insert (next_id s) A"
    proof (cases "a = m")
      case True
      then show ?thesis using i assms(6) by (simp add: id_at_payloads)
    next
      case False
      then have "id_at s a = Some i" using i assms(6) by (simp add: id_at_payloads)
      then show ?thesis using ids by blast
    qed
  qed
  ultimately show ?thesis
    using assms(3) unfolding counted_def by blast
qed

lemma counted_released:
  assumes "counted s A" "cyclic s ps"
  shows "counted (released ps s) A" "\<forall>a. heap (released ps s) a = None"
proof -
  obtain qs where qs: "cyclic s qs" "\<forall>a. heap s a \<noteq> None \<longrightarrow> a \<in> set qs"
    using assms(1) by (auto simp: counted_def)
  have "clear_route s = Some (released qs s)" using clear_route_released [OF qs(1)] .
  moreover have "clear_route s = Some (released ps s)" using clear_route_released [OF assms(2)] .
  ultimately have e: "released ps s = released qs s" by simp
  show h: "\<forall>a. heap (released ps s) a = None"
    unfolding e using qs(2) by (auto simp: released_def)
  then have "\<forall>a i. id_at (released ps s) a = Some i \<longrightarrow> i \<in> A" by (simp add: id_at_def)
  moreover have "next_id (released ps s) = next_id s" by (simp add: released_def)
  ultimately show "counted (released ps s) A"
    using assms(1) h released_cyclic [of ps s] unfolding counted_def by metis
qed

lemma session_counted: "session s A \<Longrightarrow> counted s A"
proof (induction rule: session.induct)
  case start
  have a: "\<exists>n. next_id (init_state :: 'a state) = wrap32 (1 + int n) \<and> {} = issued n"
    by (rule exI [of _ 0]) (simp add: init_state_def wrap32_def issued_def)
  have b: "\<exists>ps. cyclic (init_state :: 'a state) ps \<and>
      (\<forall>a. heap (init_state :: 'a state) a \<noteq> None \<longrightarrow> a \<in> set ps)"
    by (rule exI [of _ "[]"]) (simp add: init_state_cyclic, simp add: init_state_def)
  have c: "\<forall>a i. id_at (init_state :: 'a state) a = Some i \<longrightarrow> i \<in> {}"
    by (simp add: id_at_def init_state_def)
  show ?case unfolding counted_def using a b c by blast
next
  case (option_3 s A m nm p d t s')
  obtain ps where ps: "cyclic s ps" using option_3.IH by (auto simp: counted_def)
  show ?case
    using append_stop_cyclic [OF ps option_3.hyps(2), of nm p d t] option_3.hyps(3)
      counted_insert [OF option_3.IH ps, of s' "ps @ [m]" m]
    by auto
next
  case (option_4 s A m nm after p d t s')
  obtain ps where ps: "cyclic s ps" using option_4.IH by (auto simp: counted_def)
  obtain ps' where "cyclic s' ps'" "set ps' = insert m (set ps)"
      "next_id s' = wrap32 (next_id s + 1)"
      "payloads s' = (payloads s)(m \<mapsto> (next_id s, take (NAME_LEN - 1) nm, p, d, t))"
    using menu_insert_after_cyclic [OF ps option_4.hyps(2), of nm after p d t] option_4.hyps(3)
    by auto
  then show ?case using counted_insert [OF option_4.IH ps] by blast
next
  case (option_5 s A m nm pos p d t s')
  obtain ps where ps: "cyclic s ps" using option_5.IH by (auto simp: counted_def)
  obtain ps' where "cyclic s' ps'" "set ps' = insert m (set ps)"
      "next_id s' = wrap32 (next_id s + 1)"
      "payloads s' = (payloads s)(m \<mapsto> (next_id s, take (NAME_LEN - 1) nm, p, d, t))"
    using menu_insert_at_position_cyclic [OF ps option_5.hyps(2), of nm pos p d t] option_5.hyps(3)
    by auto
  then show ?case using counted_insert [OF option_5.IH ps] by blast
next
  case (option_6 s A nm r s')
  obtain ps where ps: "cyclic s ps" "\<forall>a. heap s a \<noteq> None \<longrightarrow> a \<in> set ps"
    using option_6.IH by (auto simp: counted_def)
  show ?case
  proof (cases "find (matches s nm) ps")
    case None
    then have "s' = s" using delete_by_name_absent [OF ps(1) None] option_6.hyps(2) by simp
    then show ?thesis using option_6.IH by simp
  next
    case (Some t)
    then have s': "cyclic s' (remove1 t ps)" "next_id s' = next_id s"
        "payloads s' = (payloads s)(t := None)"
      using delete_by_name_found [OF ps(1) Some] option_6.hyps(2) by auto
    have "\<forall>a. heap s' a \<noteq> None \<longrightarrow> a \<in> set (remove1 t ps)"
    proof (intro allI impI)
      fix a assume "heap s' a \<noteq> None"
      then have "payloads s' a \<noteq> None" by (simp add: payloads_None)
      then have "a \<noteq> t \<and> payloads s a \<noteq> None" using s'(3) by (cases "a = t") simp_all
      then have "a \<noteq> t \<and> a \<in> set ps" using ps(2) payloads_None [of s a] by auto
      then show "a \<in> set (remove1 t ps)" by simp
    qed
    moreover have "\<forall>a i. id_at s' a = Some i \<longrightarrow> id_at s a = Some i"
      using s'(3) by (auto simp: id_at_payloads split: if_splits)
    ultimately show ?thesis
      using option_6.IH s'(1,2) unfolding counted_def by metis
  qed
next
  case (option_11_unopened s A scan_lf ms r s')
  then show ?case by (simp add: load_from_file_def)
next
  case (option_11 s A s1 ms scan_lf f r s')
  obtain ps where ps: "cyclic s ps" using option_11.IH by (auto simp: counted_def)
  note rel = counted_released [OF option_11.IH ps]
  obtain n where n: "next_id s = wrap32 (1 + int n)" "A = issued n"
    using option_11.IH by (auto simp: counted_def)
  have s1: "s1 = released ps s"
    using clear_route_released [OF ps] option_11.hyps(2) by simp
  show ?case
  proof (cases "fgets LINE_LEN f")
    case None
    then have "s' = released ps s"
      using load_from_file_unfold [OF ps, of scan_lf ms f] option_11.hyps(6) by simp
    moreover have "parsed_rows scan_lf (data_part f) = []"
      using None by (simp add: data_part_def parsed_rows_def file_lines_Nil map_filter_simps)
    ultimately show ?thesis using rel(1) by simp
  next
    case (Some lf)
    obtain line f' where lf: "lf = (line, f')" by (cases lf)
    have fg: "fgets LINE_LEN f = Some (line, f')" using Some lf by simp
    then have dp: "data_part f = f'" by (simp add: data_part_def)
    let ?rows = "parsed_rows scan_lf f'"
    let ?k = "length ?rows"
    have le: "?k \<le> length ms" using option_11.hyps(5) dp by simp
    have fr: "\<forall>m \<in> set ms. heap s m = None \<or> m \<in> set ps"
      using option_11.hyps(4) s1 by (auto simp: released_def split: if_splits)
    have s': "cyclic s' (take ?k ms)" "next_id s' = advance_id ?k (next_id s)"
        "map (payloads s') (take ?k ms) = map Some (loaded_stops (next_id s) ?rows)"
        "\<forall>a. a \<notin> set (take ?k ms) \<longrightarrow> payloads s' a = payloads (released ps s) a"
      using load_from_file_frame [OF ps option_11.hyps(3) fr fg le] option_11.hyps(6) by auto
    have n': "next_id s' = wrap32 (1 + int (n + ?k))"
      using s'(2) n(1) advance_id_wrap [of ?k "1 + int n"] by (simp add: add.assoc)
    have A': "A \<union> fst ` set (loaded_stops (next_id s) ?rows) = issued (n + ?k)"
      using loaded_stops_issued [of n ?rows] issued_Un [of n ?k] n by simp
    have al: "\<forall>a. heap s' a \<noteq> None \<longrightarrow> a \<in> set (take ?k ms)"
    proof (intro allI impI)
      fix a assume a: "heap s' a \<noteq> None"
      show "a \<in> set (take ?k ms)"
      proof (rule ccontr)
        assume "a \<notin> set (take ?k ms)"
        then have "payloads s' a = payloads (released ps s) a" using s'(4) by blast
        then show False using a rel(2) payloads_None [of s' a] payloads_None [of "released ps s" a] by simp
      qed
    qed
    have ids: "\<forall>a i. id_at s' a = Some i \<longrightarrow>
        i \<in> A \<union> fst ` set (loaded_stops (next_id s) ?rows)"
    proof (intro allI impI)
      fix a i assume i: "id_at s' a = Some i"
      then have "heap s' a \<noteq> None" by (auto simp: id_at_def)
      then have "a \<in> set (take ?k ms)" using al by blast
      then have "payloads s' a \<in> set (map (payloads s') (take ?k ms))" by simp
      then obtain x where x: "x \<in> set (loaded_stops (next_id s) ?rows)" "payloads s' a = Some x"
        unfolding s'(3) by auto
      have "i = fst x" using i x(2) by (simp add: id_at_payloads)
      then show "i \<in> A \<union> fst ` set (loaded_stops (next_id s) ?rows)" using x(1) by blast
    qed
    show ?thesis
      unfolding dp counted_def using s'(1) al ids n' A' by blast
  qed
next
  case (option_12 s A s1 ms s')
  obtain ps where ps: "cyclic s ps" using option_12.IH by (auto simp: counted_def)
  note rel = counted_released [OF option_12.IH ps]
  have s1: "s1 = released ps s"
    using clear_route_released [OF ps] option_12.hyps(2) by simp
  obtain m1 m2 m3 m4 m5 where ms: "ms = [m1, m2, m3, m4, m5]"
    using option_12.hyps(4) by (auto simp: length_Suc_conv eval_nat_numeral)
  have s': "cyclic s' [m1, m2, m3, m4, m5]" "next_id s' = 6"
      "payloads s' = (payloads (released ps s))
             (m1 \<mapsto> (1, ''Central Station'', 12, 5 / 2, 6),
              m2 \<mapsto> (2, ''Market Road'', 5, 6 / 5, 3),
              m3 \<mapsto> (3, ''Library'', 3, 9 / 10, 2),
              m4 \<mapsto> (4, ''College'', 8, 9 / 5, 4),
              m5 \<mapsto> (5, ''Park'', 2, 2, 5))"
    using populate_sample_cyclic [OF ps, of m1 m2 m3 m4 m5] option_12.hyps(3,5,6) s1 ms by auto
  have p0: "payloads (released ps s) a = None" for a using rel(2) by (simp add: payloads_None)
  have al: "\<forall>a. heap s' a \<noteq> None \<longrightarrow> a \<in> set [m1, m2, m3, m4, m5]"
  proof (intro allI impI)
    fix a assume "heap s' a \<noteq> None"
    then have "payloads s' a \<noteq> None" by (simp add: payloads_None)
    then show "a \<in> set [m1, m2, m3, m4, m5]"
      unfolding s'(3) using p0 [of a] by (auto split: if_splits)
  qed
  have ids: "\<forall>a i. id_at s' a = Some i \<longrightarrow> i \<in> {1, 2, 3, 4, 5}"
    unfolding id_at_payloads s'(3) using p0 by (auto split: if_splits)
  have "next_id s' = wrap32 (1 + int 5)" using s'(2) by (simp add: wrap32_def)
  then show ?case using s'(1) al ids issued_5 unfolding counted_def by metis
qed

lemma demo_route:
  "\<exists>s. populate_sample [1, 2, 3, 4, 5] (init_state :: real state) = Some s \<and>
       session s {1, 2, 3, 4, 5} \<and> cyclic s [1, 2, 3, 4, 5] \<and> next_id s = 6 \<and>
       payloads s =
         [1 \<mapsto> (1, ''Central Station'', 12, 5 / 2, 6), 2 \<mapsto> (2, ''Market Road'', 5, 6 / 5, 3),
          3 \<mapsto> (3, ''Library'', 3, 9 / 10, 2), 4 \<mapsto> (4, ''College'', 8, 9 / 5, 4),
          5 \<mapsto> (5, ''Park'', 2, 2, 5)]"
proof -
  have d: "distinct [1 :: addr, 2, 3, 4, 5]" by simp
  have fr: "\<forall>m \<in> set [1, 2, 3, 4, 5]. heap (released [] (init_state :: real state)) m = None"
    by (simp add: released_def init_state_def)
  obtain s where s: "populate_sample [1, 2, 3, 4, 5] (init_state :: real state) = Some s"
      "cyclic s [1, 2, 3, 4, 5]" "next_id s = 6"
      "payloads s = (payloads (released [] (init_state :: real state)))
             (1 \<mapsto> (1, ''Central Station'', 12, 5 / 2, 6),
              2 \<mapsto> (2, ''Market Road'', 5, 6 / 5, 3),
              3 \<mapsto> (3, ''Library'', 3, 9 / 10, 2),
              4 \<mapsto> (4, ''College'', 8, 9 / 5, 4),
              5 \<mapsto> (5, ''Park'', 2, 2, 5))"
    using populate_sample_cyclic [OF init_state_cyclic d fr] by blast
  have e: "payloads (released [] (init_state :: real state)) = Map.empty"
    by (simp add: payloads_def released_def init_state_def fun_eq_iff)
  have cl: "clear_route (init_state :: real state) = Some (released [] init_state)"
    using clear_route_released [OF init_state_cyclic] .
  have l: "length [1 :: addr, 2, 3, 4, 5] = 5" by simp
  have "session s {1, 2, 3, 4, 5}"
    using session.option_12 [OF session.start cl d l fr s(1)] .
  then show ?thesis using s e by auto
qed

lemma strcasecmp_shorter:
  "strcasecmp (replicate k (CHR ''x'')) (replicate (Suc k) (CHR ''x'')) \<noteq> 0"
  by (induction k) (simp_all add: tolower_def)

section \<open>Deleting a name that is not on the route\<close>

text \<open>
  Claim C8. On a route that satisfies the invariant, \<open>delete_by_name\<close> with a name that
  no stop matches case-insensitively returns 0 and leaves the whole program state as it
  was: the same nodes with the same ids, names, passenger counts, weights and links, the
  same \<open>head\<close> and the same \<open>next_id\<close>.
\<close>

theorem delete_by_name_no_match_unchanged:
  assumes "cyclic s ps" and "\<forall>a \<in> set ps. \<not> matches s nm a"
  shows "delete_by_name nm s = Some (0, s)"
proof -
  have "find (matches s nm) ps = None"
    using assms(2) by (simp add: find_None_iff)
  then show ?thesis
    using assms(1) by (rule delete_by_name_absent [rotated])
qed

theorem delete_by_name_no_match_unchanged_witness:
  "cyclic (abc_route :: int state) [1, 2, 3] \<and>
   \<not> matches (abc_route :: int state) ''D'' 1 \<and>
   \<not> matches (abc_route :: int state) ''D'' 2 \<and>
   \<not> matches (abc_route :: int state) ''D'' 3 \<and>
   delete_by_name ''D'' (abc_route :: int state) = Some (0, abc_route)"
proof -
  have m: "\<forall>a \<in> set [1, 2, 3]. \<not> matches (abc_route :: int state) ''D'' a"
    by (simp add: matches_def abc_route_def tolower_def)
  show ?thesis
    using delete_by_name_no_match_unchanged [OF abc_route_cyclic m] abc_route_cyclic m
    by simp
qed

section \<open>Loading: when the route is cleared\<close>

text \<open>
  Claim C2, as stated, fails: \<open>load_from_file\<close> returns before \<open>clear_route\<close> when
  \<open>fopen\<close> fails. Loading from a file that cannot be opened reports failure and leaves
  the three stops of the sample route in place.
\<close>

theorem load_unopened_file_keeps_route:
  "load_from_file scan_lf_decimal [4, 5, 6] None (abc_route :: real state) = Some (0, abc_route) \<and>
   head (abc_route :: real state) = Some 1 \<and>
   map (payloads (abc_route :: real state)) [1, 2, 3] =
     [Some (1, ''A'', 0, 1, 2), Some (2, ''B'', 0, 3, 4), Some (3, ''C'', 0, 5, 6)]"
  by (simp add: load_from_file_def abc_route_def payloads_def payload_def)

text \<open>
  Claim C2, amended. When the file cannot be opened, \<open>load_from_file\<close> returns 0 and the
  state is unchanged. When the file opens, everything that follows runs on the state in
  which the nodes of the old route are freed and \<open>head\<close> is \<open>NULL\<close>: a load that then fails
  on the header line returns 0 with the route empty, and the stops read are appended to
  the empty route.
\<close>

theorem load_clears_once_file_is_open:
  assumes "cyclic s ps"
  shows "load_from_file scan_lf ms None s = Some (0, s) \<and>
         load_from_file scan_lf ms (Some f) s =
           (case fgets LINE_LEN f of
              None \<Rightarrow> Some (0, released ps s)
            | Some (line, f') \<Rightarrow>
                map_option (Pair 1) (load_from_file_loop scan_lf ms f' (released ps s))) \<and>
         head (released ps s) = None \<and>
         (\<forall>a \<in> set ps. heap (released ps s) a = None) \<and>
         cyclic (released ps s) []"
  using load_from_file_unfold [OF assms, of scan_lf ms f] released_cyclic [of ps s]
  by (simp add: load_from_file_def released_def)

theorem load_clears_once_file_is_open_witness:
  "cyclic (abc_route :: real state) [1, 2, 3] \<and>
   load_from_file scan_lf_decimal [] None (abc_route :: real state) = Some (0, abc_route) \<and>
   load_from_file scan_lf_decimal [] (Some []) (abc_route :: real state) =
     Some (0, released [1, 2, 3] abc_route) \<and>
   head (released [1, 2, 3] (abc_route :: real state)) = None \<and>
   heap (released [1, 2, 3] (abc_route :: real state)) 1 = None \<and>
   heap (released [1, 2, 3] (abc_route :: real state)) 2 = None \<and>
   heap (released [1, 2, 3] (abc_route :: real state)) 3 = None"
  using load_clears_once_file_is_open [OF abc_route_cyclic, of scan_lf_decimal "[]" "[]"]
    abc_route_cyclic [where ?'a = real]
  by (simp add: fgets_def)

section \<open>Loading: the status returned\<close>



section \<open>Loading: which rows become stops\<close>

text \<open>
  Claim C9, as stated, fails in two ways. The row \<open>x,A,3,1.5,2\<close> holds a well-formed
  name, passenger count, distance and time, as the same row with the identity 1 shows,
  yet it is skipped: \<open>%*d\<close> has to match before the other fields are reached, and so is
  the row whose identity field is empty. And the row \<open>long_row\<close> of 262 characters, which
  \<open>sscanf\<close> would read as the stop \<open>(A, 3, 1.5, 7)\<close>, is not appended as such: \<open>fgets\<close>
  returns its first 255 characters, which are read as a stop with time 0, and then the
  remainder, which is skipped.
\<close>

theorem load_skips_bad_identity_and_splits_long_row:
  "sscanf_row scan_lf_decimal (''1,A,3,1.5,2'' @ [CHR 0x0A]) = Some (''A'', 3, 3 / 2, 2) \<and>
   sscanf_row scan_lf_decimal (''x,A,3,1.5,2'' @ [CHR 0x0A]) = None \<and>
   sscanf_row scan_lf_decimal ('',A,3,1.5,2'' @ [CHR 0x0A]) = None \<and>
   map_option (map_prod id head)
     (load_from_file scan_lf_decimal [5] (Some (header_line @ ''x,A,3,1.5,2'' @ [CHR 0x0A]))
        (init_state :: real state)) = Some (1, None) \<and>
   length long_row = 262 \<and>
   sscanf_row scan_lf_decimal long_row = Some (''A'', 3, 3 / 2, 7) \<and>
   map_option (map_prod id payloads)
     (load_from_file scan_lf_decimal [5, 6] (Some (header_line @ long_row))
        (init_state :: real state)) = Some (1, [5 \<mapsto> (1, ''A'', 3, 3 / 2, 0)])"
proof -
  have fr: "\<forall>m \<in> set [5]. heap (init_state :: real state) m = None \<or> m \<in> set []"
    by (simp add: init_state_def)
  have le: "length (parsed_rows scan_lf_decimal (''x,A,3,1.5,2'' @ [CHR 0x0A])) \<le> length [5 :: addr]"
    using bad_identity_parsed by simp
  obtain s1 where s1: "load_from_file scan_lf_decimal [5] (Some (header_line @ ''x,A,3,1.5,2'' @ [CHR 0x0A]))
        (init_state :: real state) = Some (1, s1)"
      "cyclic s1 (take (length (parsed_rows scan_lf_decimal (''x,A,3,1.5,2'' @ [CHR 0x0A]))) [5])"
    using load_from_file_cyclic [OF init_state_cyclic _ fr fgets_header le] by auto
  have h1: "head s1 = None" using s1(2) bad_identity_parsed by (simp add: cyclic_def)
  have fr2: "\<forall>m \<in> set [5, 6]. heap (init_state :: real state) m = None \<or> m \<in> set []"
    by (simp add: init_state_def)
  have le2: "length (parsed_rows scan_lf_decimal long_row) \<le> length [5 :: addr, 6]"
    by (simp add: long_row_parsed)
  have d2: "distinct [5 :: addr, 6]" by simp
  obtain s2 where s2: "load_from_file scan_lf_decimal [5, 6] (Some (header_line @ long_row))
        (init_state :: real state) = Some (1, s2)"
      "map (payloads s2) (take (length (parsed_rows scan_lf_decimal long_row)) [5, 6]) =
         map Some (loaded_stops (next_id (init_state :: real state)) (parsed_rows scan_lf_decimal long_row))"
      "\<forall>a. a \<notin> set (take (length (parsed_rows scan_lf_decimal long_row)) [5, 6]) \<longrightarrow>
         payloads s2 a = payloads (released [] (init_state :: real state)) a"
    using load_from_file_frame [OF init_state_cyclic d2 fr2 fgets_header le2] by blast
  have "payloads s2 a = [5 \<mapsto> (1, ''A'', 3, 3 / 2, 0)] a" for a
    using s2(2,3)
    by (cases "a = 5")
       (simp_all add: long_row_parsed init_state_def released_def payloads_def NAME_LEN_def)
  then have p2: "payloads s2 = [5 \<mapsto> (1, ''A'', 3, 3 / 2, 0)]" by (rule ext)
  have ln: "length long_row = 262" by (simp add: long_row_def)
  show ?thesis
    using bad_identity_rows s1(1) h1 ln long_row_whole s2(1) p2 by simp
qed

text \<open>
  Claim C9, amended. Let the rows that follow the header line each have at most
  \<open>LINE_LEN - 1\<close> characters, the newline included, so that \<open>fgets\<close> returns them whole.
  Then \<open>load_from_file\<close> returns 1 and the route holds one stop for each row that
  \<open>sscanf\<close> reads in full, in file order (each is appended through \<open>insert_end\<close>), with
  the values read and the identities \<open>next_id\<close>, \<open>next_id + 1\<close>, ... of the counter;
  every other row is skipped and the load goes on. A row is read in full exactly when an
  integer comes first, whose value is not used, and then, each behind a comma, a name,
  an integer and two numbers.
\<close>

theorem load_appends_parsed_rows_in_order:
  assumes "cyclic s ps" "distinct ms" "\<forall>m \<in> set ms. heap s m = None \<or> m \<in> set ps"
    "fgets LINE_LEN f = Some (header, f')" "rows_fit f'"
    "length (List.map_filter (sscanf_row scan_lf) (text_rows f')) \<le> length ms"
  shows "(\<exists>s'. load_from_file scan_lf ms (Some f) s = Some (1, s') \<and>
            cyclic s' (take (length (List.map_filter (sscanf_row scan_lf) (text_rows f'))) ms) \<and>
            next_id s' =
              advance_id (length (List.map_filter (sscanf_row scan_lf) (text_rows f'))) (next_id s) \<and>
            map (payloads s') (take (length (List.map_filter (sscanf_row scan_lf) (text_rows f'))) ms) =
              map Some (loaded_stops (next_id s)
                (List.map_filter (sscanf_row scan_lf) (text_rows f')))) \<and>
         (\<forall>row nm p d t.
            sscanf_row scan_lf row = Some (nm, p, d, t) \<longleftrightarrow>
              (\<exists>i r2 r4 r6 r8 r9.
                 scan_int (c_str row) = Some (i, CHR '','' # r2) \<and>
                 scan_name r2 = Some (nm, CHR '','' # r4) \<and>
                 scan_int r4 = Some (p, CHR '','' # r6) \<and>
                 scan_lf r6 = Some (d, CHR '','' # r8) \<and>
                 scan_lf r8 = Some (t, r9)))"
proof -
  have pr: "parsed_rows scan_lf f' = List.map_filter (sscanf_row scan_lf) (text_rows f')"
    using file_lines_text_rows [OF assms(5)] by (simp add: parsed_rows_def)
  have le: "length (parsed_rows scan_lf f') \<le> length ms" using assms(6) pr by simp
  have "\<exists>s'. load_from_file scan_lf ms (Some f) s = Some (1, s') \<and>
            cyclic s' (take (length (parsed_rows scan_lf f')) ms) \<and>
            next_id s' = advance_id (length (parsed_rows scan_lf f')) (next_id s) \<and>
            map (payloads s') (take (length (parsed_rows scan_lf f')) ms) =
              map Some (loaded_stops (next_id s) (parsed_rows scan_lf f'))"
    using load_from_file_cyclic [OF assms(1,2,3,4) le] .
  then show ?thesis unfolding pr using sscanf_row_Some [of scan_lf] by blast
qed

theorem load_appends_parsed_rows_in_order_witness:
  "cyclic (abc_route :: real state) [1, 2, 3] \<and> distinct [1 :: addr, 5] \<and>
   fgets LINE_LEN sample_file = Some (header_line, sample_rows) \<and>
   text_rows sample_rows =
     [''1,A,3,1.5,2'' @ [CHR 0x0A], ''bad row'' @ [CHR 0x0A], ''7,B,4,2.5,3'' @ [CHR 0x0A]] \<and>
   map length (text_rows sample_rows) = [12, 8, 12] \<and>
   List.map_filter (sscanf_row scan_lf_decimal) (text_rows sample_rows) =
     [(''A'', 3, 3 / 2, 2), (''B'', 4, 5 / 2, 3)] \<and>
   (\<exists>s'. load_from_file scan_lf_decimal [1, 5] (Some sample_file) (abc_route :: real state) = Some (1, s') \<and>
      cyclic s' [1, 5] \<and> next_id s' = 6 \<and>
      map (payloads s') [1, 5] = [Some (4, ''A'', 3, 3 / 2, 2), Some (5, ''B'', 4, 5 / 2, 3)])"
proof -
  have rf: "rows_fit sample_rows" by (simp add: rows_fit_def sample_rows_text LINE_LEN_def)
  have mf: "List.map_filter (sscanf_row scan_lf_decimal) (text_rows sample_rows) =
      [(''A'', 3, 3 / 2, 2), (''B'', 4, 5 / 2, 3)]"
    using sample_file_rows file_lines_text_rows [OF rf] by (simp add: parsed_rows_def)
  have le: "length (List.map_filter (sscanf_row scan_lf_decimal) (text_rows sample_rows)) \<le> length [1 :: addr, 5]"
    by (simp add: mf)
  have d: "distinct [1 :: addr, 5]" by simp
  have n: "next_id (abc_route :: real state) = 4" by (simp add: abc_route_def)
  have "\<exists>s'. load_from_file scan_lf_decimal [1, 5] (Some sample_file) (abc_route :: real state) = Some (1, s') \<and>
      cyclic s' [1, 5] \<and> next_id s' = 6 \<and>
      map (payloads s') [1, 5] = [Some (4, ''A'', 3, 3 / 2, 2), Some (5, ''B'', 4, 5 / 2, 3)]"
    using load_appends_parsed_rows_in_order [OF abc_route_cyclic d abc_route_fresh sample_file_header rf le,
        THEN conjunct1]
    by (simp add: mf n wrap32_def NAME_LEN_def eval_nat_numeral)
  then show ?thesis
    using sample_file_header abc_route_cyclic [where ?'a = real] mf
    by (simp add: sample_rows_text)
qed

section \<open>Appending a stop and looking it up\<close>

text \<open>
  Claim C4, as stated, fails in three ways. \<open>find_by_name\<close> returns the first match in
  traversal order: after a stop named \<open>a\<close> is appended to the sample route, looking up
  \<open>a\<close> returns the older stop \<open>A\<close> at address 1, whose identity is 1, not the new stop at
  address 4, whose identity is 4. \<open>create_stop\<close> keeps 63 characters of a name: a stop
  appended under a name of 64 characters is not found under that name. And
  \<open>populate_sample\<close> sets the counter back to 1: in the session that populates the
  demonstration route, appends \<open>X\<close>, populates again and appends \<open>Y\<close>, the lookup of \<open>Y\<close>
  returns the new stop, whose identity is 6, the identity that \<open>X\<close> was given before.
  (A payload is identity, name, passengers, distance and time.)
\<close>

theorem find_by_name_returns_earlier_duplicate:
  "(append_stop (Some 4) ''a'' 0 0 0 (abc_route :: real state) \<bind> find_by_name ''a'') = Some (Some 1) \<and>
   map_option payloads (append_stop (Some 4) ''a'' 0 0 0 (abc_route :: real state)) =
     Some [1 \<mapsto> (1, ''A'', 0, 1, 2), 2 \<mapsto> (2, ''B'', 0, 3, 4), 3 \<mapsto> (3, ''C'', 0, 5, 6),
           4 \<mapsto> (4, ''a'', 0, 0, 0)] \<and>
   length long_name = NAME_LEN \<and>
   (append_stop (Some 4) long_name 0 0 0 (abc_route :: real state) \<bind> find_by_name long_name) =
     Some None \<and>
   (populate_sample [1, 2, 3, 4, 5] (init_state :: real state) \<bind>
      append_stop (Some 6) ''X'' 0 0 0 \<bind> (\<lambda>s. id_at s 6)) = Some 6 \<and>
   (populate_sample [1, 2, 3, 4, 5] (init_state :: real state) \<bind>
      append_stop (Some 6) ''X'' 0 0 0 \<bind> populate_sample [7, 8, 9, 10, 11] \<bind>
      append_stop (Some 12) ''Y'' 0 0 0 \<bind> find_by_name ''Y'') = Some (Some 12) \<and>
   (populate_sample [1, 2, 3, 4, 5] (init_state :: real state) \<bind>
      append_stop (Some 6) ''X'' 0 0 0 \<bind> populate_sample [7, 8, 9, 10, 11] \<bind>
      append_stop (Some 12) ''Y'' 0 0 0 \<bind> (\<lambda>s. id_at s 12)) = Some 6"
proof -
  have h: "heap (abc_route :: real state) 4 = None" by (simp add: abc_route_def)
  have n: "next_id (abc_route :: real state) = 4" by (simp add: abc_route_def)
  obtain s' where s': "append_stop (Some 4) ''a'' 0 0 0 (abc_route :: real state) = Some s'"
      "cyclic s' ([1, 2, 3] @ [4])"
      "payloads s' = (payloads (abc_route :: real state))(4 \<mapsto> (next_id (abc_route :: real state), take (NAME_LEN - 1) ''a'', 0, 0, 0))"
    using append_stop_cyclic [OF abc_route_cyclic h] by blast
  have "find (matches s' ''a'') ([1, 2, 3] @ [4]) = Some 1"
    by (simp add: matches_payloads s'(3) abc_route_payloads tolower_def)
  then have a1: "find_by_name ''a'' s' = Some (Some 1)"
    using find_by_name_cyclic [OF s'(2)] by simp
  have a2: "payloads s' =
      [1 \<mapsto> (1, ''A'', 0, 1, 2), 2 \<mapsto> (2, ''B'', 0, 3, 4), 3 \<mapsto> (3, ''C'', 0, 5, 6),
       4 \<mapsto> (4, ''a'', 0, 0, 0)]"
    by (simp add: s'(3) abc_route_payloads n NAME_LEN_def)
  obtain u where u: "append_stop (Some 4) long_name 0 0 0 (abc_route :: real state) = Some u"
      "cyclic u ([1, 2, 3] @ [4])"
      "payloads u = (payloads (abc_route :: real state))(4 \<mapsto> (next_id (abc_route :: real state), take (NAME_LEN - 1) long_name, 0, 0, 0))"
    using append_stop_cyclic [OF abc_route_cyclic h] by blast
  have tk: "take (NAME_LEN - 1) long_name = replicate 63 (CHR ''x'')"
    by (simp add: long_name_def NAME_LEN_def)
  have ln: "long_name = replicate (Suc 63) (CHR ''x'')" by (simp add: long_name_def)
  have hd: "long_name = CHR ''x'' # replicate 63 (CHR ''x'')"
    using replicate_Suc [of 63 "CHR ''x''"] by (simp add: long_name_def)
  have pu: "payloads u = (payloads (abc_route :: real state))(4 \<mapsto> (4, replicate 63 (CHR ''x''), 0, 0, 0))"
    using u(3) tk n by simp
  have na: "strcasecmp ''A'' long_name \<noteq> 0" "strcasecmp ''B'' long_name \<noteq> 0"
      "strcasecmp ''C'' long_name \<noteq> 0"
    unfolding hd by (simp_all add: tolower_def char_of_eq_iff)
  have nx: "strcasecmp (replicate 63 (CHR ''x'')) long_name \<noteq> 0"
    unfolding ln by (rule strcasecmp_shorter)
  have "find (matches u long_name) ([1, 2, 3] @ [4]) = None"
    using na nx by (simp add: matches_payloads pu abc_route_payloads)
  then have b: "find_by_name long_name u = Some None"
    using find_by_name_cyclic [OF u(2)] by simp
  have bl: "length long_name = NAME_LEN" by (simp add: long_name_def NAME_LEN_def)
  obtain s1 where s1: "populate_sample [1, 2, 3, 4, 5] (init_state :: real state) = Some s1"
      "cyclic s1 [1, 2, 3, 4, 5]" "next_id s1 = 6"
      "payloads s1 =
         [1 \<mapsto> (1, ''Central Station'', 12, 5 / 2, 6), 2 \<mapsto> (2, ''Market Road'', 5, 6 / 5, 3),
          3 \<mapsto> (3, ''Library'', 3, 9 / 10, 2), 4 \<mapsto> (4, ''College'', 8, 9 / 5, 4),
          5 \<mapsto> (5, ''Park'', 2, 2, 5)]"
    using demo_route by blast
  have h1: "heap s1 6 = None" using payloads_None [of s1 6] s1(4) by simp
  obtain s2 where s2: "append_stop (Some 6) ''X'' 0 0 0 s1 = Some s2"
      "cyclic s2 ([1, 2, 3, 4, 5] @ [6])"
      "payloads s2 = (payloads s1)(6 \<mapsto> (next_id s1, take (NAME_LEN - 1) ''X'', 0, 0, 0))"
    using append_stop_cyclic [OF s1(2) h1] by blast
  have c1: "id_at s2 6 = Some 6" using s2(3) s1(3) by (simp add: id_at_payloads)
  have d: "distinct [7 :: addr, 8, 9, 10, 11]" by simp
  have fr: "\<forall>m \<in> set [7, 8, 9, 10, 11]. heap (released ([1, 2, 3, 4, 5] @ [6]) s2) m = None"
  proof
    fix m :: addr assume "m \<in> set [7, 8, 9, 10, 11]"
    then have "payloads s2 m = None" using s2(3) s1(4) by auto
    then show "heap (released ([1, 2, 3, 4, 5] @ [6]) s2) m = None"
      by (simp add: released_def payloads_None)
  qed
  obtain s3 where s3: "populate_sample [7, 8, 9, 10, 11] s2 = Some s3"
      "cyclic s3 [7, 8, 9, 10, 11]" "next_id s3 = 6"
      "payloads s3 = (payloads (released ([1, 2, 3, 4, 5] @ [6]) s2))
             (7 \<mapsto> (1, ''Central Station'', 12, 5 / 2, 6),
              8 \<mapsto> (2, ''Market Road'', 5, 6 / 5, 3),
              9 \<mapsto> (3, ''Library'', 3, 9 / 10, 2),
              10 \<mapsto> (4, ''College'', 8, 9 / 5, 4),
              11 \<mapsto> (5, ''Park'', 2, 2, 5))"
    using populate_sample_cyclic [OF s2(2) d fr] by blast
  have "payloads s2 12 = None" using s2(3) s1(4) by simp
  then have "heap s2 12 = None" by (simp add: payloads_None)
  then have "payloads (released ([1, 2, 3, 4, 5] @ [6]) s2) 12 = None"
    by (simp add: payloads_def released_def)
  then have h3: "heap s3 12 = None" using payloads_None [of s3 12] s3(4) by simp
  obtain s4 where s4: "append_stop (Some 12) ''Y'' 0 0 0 s3 = Some s4"
      "cyclic s4 ([7, 8, 9, 10, 11] @ [12])"
      "payloads s4 = (payloads s3)(12 \<mapsto> (next_id s3, take (NAME_LEN - 1) ''Y'', 0, 0, 0))"
    using append_stop_cyclic [OF s3(2) h3] by blast
  have "find (matches s4 ''Y'') ([7, 8, 9, 10, 11] @ [12]) = Some 12"
    by (simp add: matches_payloads s4(3) s3(4) tolower_def NAME_LEN_def)
  then have c2: "find_by_name ''Y'' s4 = Some (Some 12)"
    using find_by_name_cyclic [OF s4(2)] by simp
  have c3: "id_at s4 12 = Some 6" using s4(3) s3(3) by (simp add: id_at_payloads)
  show ?thesis
    using s'(1) a1 a2 bl u(1) b s1(1) s2(1) c1 s3(1) s4(1) c2 c3 by simp
qed

text \<open>
  Claim C4, amended. Let the state be one that a session reaches, with fewer than
  \<open>2 ^ 32\<close> identities assigned since the counter was last set to 1 (an \<open>int\<close> has no more
  values), let no stop of the route match the name case-insensitively, and let the name
  have fewer than \<open>NAME_LEN\<close> characters. Then after \<open>insert_end\<close> of a newly created stop
  with that name \<open>find_by_name\<close> returns the new stop; its identity is the value of
  \<open>next_id\<close> before the call, which differs from every identity assigned since the
  counter was last set to 1, and so from the identity of every stop of the route.
\<close>

theorem insert_end_then_find_by_name:
  fixes s :: "'w::{numeral,inverse} state"
  assumes "session s A" "card A < 4294967296" "cyclic s ps" "heap s m = None"
    "\<forall>a \<in> set ps. \<not> matches s nm a" "length nm < NAME_LEN"
  shows "\<exists>s'. append_stop (Some m) nm p d t s = Some s' \<and>
              find_by_name nm s' = Some (Some m) \<and>
              payloads s' m = Some (next_id s, nm, p, d, t) \<and>
              id_at s' m = Some (next_id s) \<and>
              next_id s \<notin> A \<and>
              (\<forall>a \<in> set ps. id_at s' a = id_at s a \<and> id_at s' a \<noteq> id_at s' m)"
proof -
  obtain s' where s': "append_stop (Some m) nm p d t s = Some s'" "cyclic s' (ps @ [m])"
      "payloads s' = (payloads s)(m \<mapsto> (next_id s, take (NAME_LEN - 1) nm, p, d, t))"
    using append_stop_cyclic [OF assms(3,4)] by blast
  have mq: "m \<notin> set ps" using cyclic_alloc [OF assms(3)] assms(4) by blast
  have tk: "take (NAME_LEN - 1) nm = nm" using assms(6) by simp
  have pm: "payloads s' m = Some (next_id s, nm, p, d, t)" using s'(3) tk by simp
  have po: "payloads s' a = payloads s a" if "a \<in> set ps" for a
    using that mq s'(3) by auto
  have "\<not> matches s' nm a" if "a \<in> set ps" for a
    using that assms(5) po [OF that] by (simp add: matches_payloads)
  moreover have "matches s' nm m" using pm by (simp add: matches_payloads strcasecmp_refl)
  ultimately have "find (matches s' nm) (ps @ [m]) = Some m"
    by (auto simp: find_Some_iff nth_append intro!: exI [of _ "length ps"])
  then have f: "find_by_name nm s' = Some (Some m)"
    using find_by_name_cyclic [OF s'(2)] by simp
  have im: "id_at s' m = Some (next_id s)" using pm by (simp add: id_at_payloads)
  obtain n where n: "next_id s = wrap32 (1 + int n)" "A = issued n"
    using session_counted [OF assms(1)] by (auto simp: counted_def)
  have ids: "\<forall>a i. id_at s a = Some i \<longrightarrow> i \<in> A"
    using session_counted [OF assms(1)] by (auto simp: counted_def)
  have fresh: "next_id s \<notin> A" using issued_fresh [of n] assms(2) n by simp
  have "id_at s' a = id_at s a \<and> id_at s' a \<noteq> id_at s' m" if a: "a \<in> set ps" for a
  proof -
    have e: "id_at s' a = id_at s a" using po [OF a] by (simp add: id_at_payloads)
    have "heap s a \<noteq> None" using cyclic_alloc [OF assms(3) a] .
    then obtain i where "id_at s a = Some i" by (auto simp: id_at_def)
    then show ?thesis using e ids fresh im by auto
  qed
  then show ?thesis using s'(1) f pm im fresh by blast
qed

theorem insert_end_then_find_by_name_witness:
  "\<exists>s. populate_sample [1, 2, 3, 4, 5] (init_state :: real state) = Some s \<and>
     session s {1, 2, 3, 4, 5} \<and> card {1 :: int, 2, 3, 4, 5} < 4294967296 \<and>
     cyclic s [1, 2, 3, 4, 5] \<and> heap s 6 = None \<and>
     \<not> matches s ''Depot'' 1 \<and> \<not> matches s ''Depot'' 2 \<and> \<not> matches s ''Depot'' 3 \<and>
     \<not> matches s ''Depot'' 4 \<and> \<not> matches s ''Depot'' 5 \<and> length ''Depot'' < NAME_LEN \<and>
     next_id s = 6 \<and>
     (\<exists>s'. append_stop (Some 6) ''Depot'' 9 7 8 s = Some s' \<and>
        find_by_name ''Depot'' s' = Some (Some 6) \<and>
        payloads s' 6 = Some (6, ''Depot'', 9, 7, 8) \<and>
        map (id_at s') [1, 2, 3, 4, 5, 6] = [Some 1, Some 2, Some 3, Some 4, Some 5, Some 6])"
proof -
  obtain s where s: "populate_sample [1, 2, 3, 4, 5] (init_state :: real state) = Some s"
      "session s {1, 2, 3, 4, 5}" "cyclic s [1, 2, 3, 4, 5]" "next_id s = 6"
      "payloads s =
         [1 \<mapsto> (1, ''Central Station'', 12, 5 / 2, 6), 2 \<mapsto> (2, ''Market Road'', 5, 6 / 5, 3),
          3 \<mapsto> (3, ''Library'', 3, 9 / 10, 2), 4 \<mapsto> (4, ''College'', 8, 9 / 5, 4),
          5 \<mapsto> (5, ''Park'', 2, 2, 5)]"
    using demo_route by blast
  have h: "heap s 6 = None" using payloads_None [of s 6] s(5) by simp
  have m: "\<forall>a \<in> set [1, 2, 3, 4, 5]. \<not> matches s ''Depot'' a"
    by (simp add: matches_payloads s(5) tolower_def)
  have l: "length ''Depot'' < NAME_LEN" by (simp add: NAME_LEN_def)
  have i: "map (id_at s) [1, 2, 3, 4, 5] = [Some 1, Some 2, Some 3, Some 4, Some 5]"
    by (simp add: id_at_payloads s(5))
  have c: "card {1 :: int, 2, 3, 4, 5} < 4294967296" by simp
  have "\<exists>s'. append_stop (Some 6) ''Depot'' 9 7 8 s = Some s' \<and>
        find_by_name ''Depot'' s' = Some (Some 6) \<and>
        payloads s' 6 = Some (6, ''Depot'', 9, 7, 8) \<and>
        map (id_at s') [1, 2, 3, 4, 5, 6] = [Some 1, Some 2, Some 3, Some 4, Some 5, Some 6]"
    using insert_end_then_find_by_name [OF s(2) c s(3) h m l, of 9 7 8] i s(4) by auto
  then show ?thesis using s(1,2,3,4) h m l c by (intro exI [of _ s]) simp
qed

section \<open>Deleting a stop\<close>

text \<open>
  Claim C7. When \<open>delete_by_name\<close> finds a stop it returns 1 and unlinks and frees the
  first match. If that was the only stop, \<open>head\<close> is \<open>NULL\<close> afterwards; if it was the
  head of a longer route, \<open>head\<close> is its former successor; otherwise \<open>head\<close> stays. The
  identity, name, passenger count, \<open>dist_to_next\<close> and \<open>time_to_next\<close> of every other
  stop are unchanged: no weight is recomputed.
\<close>

theorem delete_by_name_removes_first_match:
  assumes "cyclic s ps" "find (matches s nm) ps = Some t"
  shows "\<exists>s'. delete_by_name nm s = Some (1, s') \<and> cyclic s' (remove1 t ps) \<and>
              (ps = [t] \<longrightarrow> head s' = None) \<and>
              (head s = Some t \<and> ps \<noteq> [t] \<longrightarrow> head s' = nxt (heap s) t \<and> head s' \<noteq> None) \<and>
              (head s \<noteq> Some t \<longrightarrow> head s' = head s) \<and>
              heap s' t = None \<and>
              (\<forall>a. a \<noteq> t \<longrightarrow> payloads s' a = payloads s a)"
proof -
  obtain s' where s': "delete_by_name nm s = Some (1, s')" "cyclic s' (remove1 t ps)"
      "payloads s' = (payloads s)(t := None)"
    using delete_by_name_found [OF assms] by blast
  have tin: "t \<in> set ps" using assms(2) by (auto simp: find_Some_iff)
  have d: "distinct ps" using assms(1) by (simp add: cyclic_def ringf_def)
  obtain p qs where ps: "ps = p # qs" using tin by (cases ps) auto
  have hs: "head s = Some p" using assms(1) ps by (simp add: cyclic_def)
  have c1: "ps = [t] \<longrightarrow> head s' = None"
    using s'(2) by (auto simp: cyclic_def)
  have c2: "head s = Some t \<and> ps \<noteq> [t] \<longrightarrow> head s' = nxt (heap s) t \<and> head s' \<noteq> None"
  proof
    assume a: "head s = Some t \<and> ps \<noteq> [t]"
    then have pt: "p = t" and qne: "qs \<noteq> []" using hs ps by auto
    then have l: "Suc 0 < length ps" using ps by simp
    have "0 < length ps" using ps by simp
    then have "nxt (heap s) (ps ! 0) = Some (ps ! (Suc 0 mod length ps))"
      by (rule cyclic_next [OF assms(1)])
    then have "nxt (heap s) t = Some (hd qs)"
      using l ps pt qne by (simp add: hd_conv_nth)
    moreover have "head s' = Some (hd qs)"
      using s'(2) ps pt qne by (cases qs) (simp_all add: cyclic_def)
    ultimately show "head s' = nxt (heap s) t \<and> head s' \<noteq> None" by simp
  qed
  have c3: "head s \<noteq> Some t \<longrightarrow> head s' = head s"
    using s'(2) ps hs by (auto simp: cyclic_def)
  have c4: "heap s' t = None" using s'(3) by (simp add: payloads_def fun_eq_iff) (metis map_option_is_None)
  have c5: "\<forall>a. a \<noteq> t \<longrightarrow> payloads s' a = payloads s a" using s'(3) by simp
  show ?thesis using s'(1,2) c1 c2 c3 c4 c5 by blast
qed

theorem delete_by_name_removes_first_match_witness:
  "cyclic (abc_route :: real state) [1, 2, 3] \<and>
   find (matches (abc_route :: real state) ''a'') [1, 2, 3] = Some 1 \<and>
   (\<exists>s'. delete_by_name ''a'' (abc_route :: real state) = Some (1, s') \<and> cyclic s' [2, 3] \<and>
      head s' = Some 2 \<and> heap s' 1 = None \<and>
      payloads s' 2 = Some (2, ''B'', 0, 3, 4) \<and> payloads s' 3 = Some (3, ''C'', 0, 5, 6))"
proof -
  have f: "find (matches (abc_route :: real state) ''a'') [1, 2, 3] = Some 1"
    by (simp add: matches_payloads abc_route_payloads tolower_def)
  have n: "nxt (heap (abc_route :: real state)) 1 = Some 2" "head (abc_route :: real state) = Some 1"
    by (simp_all add: nxt_def abc_route_def)
  show ?thesis
    using delete_by_name_removes_first_match [OF abc_route_cyclic f] f n
      abc_route_cyclic [where ?'a = real]
    by (auto simp: abc_route_payloads)
qed

section \<open>Inserting at a position\<close>

text \<open>
  Claim C6. \<open>insert_at_position\<close> puts the new stop behind the first \<open>pos - 1\<close> stops,
  or behind all of them when there are fewer. With \<open>pos \<le> 1\<close> or on the empty route the
  new stop becomes the head, the old head following it and the old tail preceding it;
  with \<open>pos\<close> beyond the length it becomes the last stop, just before the head. The
  scenario: position 1 on \<open>[A, B, C]\<close> gives \<open>[D, A, B, C]\<close> with head \<open>D\<close>.
\<close>

theorem insert_at_position_front_and_beyond:
  assumes "cyclic s ps" "heap s nd \<noteq> None" "nd \<notin> set ps"
  shows "\<exists>s'. insert_at_position (Some nd) pos s = Some s' \<and>
              payloads s' = payloads s \<and>
              cyclic s' (take (nat (pos - 1)) ps @ nd # drop (nat (pos - 1)) ps) \<and>
              (ps = [] \<or> pos \<le> 1 \<longrightarrow> cyclic s' (nd # ps) \<and> head s' = Some nd) \<and>
              (int (length ps) < pos \<longrightarrow> cyclic s' (ps @ [nd]) \<and> (ps \<noteq> [] \<longrightarrow> head s' = head s))"
proof -
  obtain s' where s': "insert_at_position (Some nd) pos s = Some s'"
      "cyclic s' (take (nat (pos - 1)) ps @ nd # drop (nat (pos - 1)) ps)"
      "payloads s' = payloads s"
    using insert_at_position_cyclic [OF assms] by blast
  have c1: "ps = [] \<or> pos \<le> 1 \<longrightarrow> cyclic s' (nd # ps) \<and> head s' = Some nd"
  proof
    assume "ps = [] \<or> pos \<le> 1"
    then have "take (nat (pos - 1)) ps @ nd # drop (nat (pos - 1)) ps = nd # ps" by auto
    then show "cyclic s' (nd # ps) \<and> head s' = Some nd"
      using s'(2) by (simp add: cyclic_def)
  qed
  have c2: "int (length ps) < pos \<longrightarrow> cyclic s' (ps @ [nd]) \<and> (ps \<noteq> [] \<longrightarrow> head s' = head s)"
  proof
    assume "int (length ps) < pos"
    then have "take (nat (pos - 1)) ps @ nd # drop (nat (pos - 1)) ps = ps @ [nd]" by auto
    then have c: "cyclic s' (ps @ [nd])" using s'(2) by simp
    then have "ps \<noteq> [] \<longrightarrow> head s' = head s"
      using assms(1) by (cases ps) (simp_all add: cyclic_def)
    then show "cyclic s' (ps @ [nd]) \<and> (ps \<noteq> [] \<longrightarrow> head s' = head s)" using c by simp
  qed
  show ?thesis using s' c1 c2 by blast
qed

theorem insert_at_position_front_and_beyond_witness:
  "cyclic (abc_new_route :: real state) [1, 2, 3] \<and> heap (abc_new_route :: real state) 4 \<noteq> None \<and>
   (4 :: addr) \<notin> set [1, 2, 3] \<and>
   (\<exists>s'. insert_at_position (Some 4) 1 (abc_new_route :: real state) = Some s' \<and>
      cyclic s' [4, 1, 2, 3] \<and> head s' = Some 4 \<and>
      map (payloads s') [4, 1, 2, 3] =
        [Some (4, ''D'', 0, 7, 8), Some (1, ''A'', 0, 1, 2), Some (2, ''B'', 0, 3, 4),
         Some (3, ''C'', 0, 5, 6)]) \<and>
   (\<exists>s'. insert_at_position (Some 4) 5 (abc_new_route :: real state) = Some s' \<and>
      cyclic s' [1, 2, 3, 4] \<and> head s' = Some 1)"
proof -
  have h: "heap (abc_new_route :: real state) 4 \<noteq> None" by (simp add: abc_new_route_def)
  have n: "(4 :: addr) \<notin> set [1, 2, 3]" by simp
  have hd: "head (abc_new_route :: real state) = Some 1" by (simp add: abc_new_route_def abc_route_def)
  have a: "\<exists>s'. insert_at_position (Some 4) 1 (abc_new_route :: real state) = Some s' \<and>
      cyclic s' [4, 1, 2, 3] \<and> head s' = Some 4 \<and>
      map (payloads s') [4, 1, 2, 3] =
        [Some (4, ''D'', 0, 7, 8), Some (1, ''A'', 0, 1, 2), Some (2, ''B'', 0, 3, 4),
         Some (3, ''C'', 0, 5, 6)]"
    using insert_at_position_front_and_beyond [OF abc_new_route_cyclic h n, of 1]
    by (auto simp: abc_new_route_payloads)
  have b: "\<exists>s'. insert_at_position (Some 4) 5 (abc_new_route :: real state) = Some s' \<and>
      cyclic s' [1, 2, 3, 4] \<and> head s' = Some 1"
    using insert_at_position_front_and_beyond [OF abc_new_route_cyclic h n, of 5] hd
    by auto
  show ?thesis
    using a b h abc_new_route_cyclic [where ?'a = real] by simp
qed

section \<open>The invariant of the ring\<close>

text \<open>
  Claim C1. In a state that satisfies \<open>cyclic s ps\<close>: from \<open>head\<close>, \<open>length ps\<close> steps
  along \<open>next\<close> lead back to \<open>head\<close> and no smaller positive number does; every stop is
  reached on the way, and the successor of each stop has that stop as its predecessor.
  Each operation on the route, given a node that is allocated and not yet on the route
  where it takes one, returns a state that satisfies the invariant again: \<open>insert_end\<close>,
  \<open>insert_after\<close> (behind a stop of the route, or with \<open>NULL\<close>), \<open>insert_at_position\<close>,
  \<open>delete_by_name\<close>, \<open>clear_route\<close> and \<open>load_from_file\<close>. The initial state satisfies
  it by \<open>init_state_cyclic\<close>.
\<close>

theorem cyclic_closure_preserved:
  assumes "cyclic s ps"
  shows "(ps \<noteq> [] \<longrightarrow> advance (length ps) (head s) s = Some (head s)) \<and>
         (\<forall>k. 0 < k \<and> k < length ps \<longrightarrow> advance k (head s) s \<noteq> Some (head s)) \<and>
         (\<forall>a \<in> set ps. (\<exists>k < length ps. advance k (head s) s = Some (Some a)) \<and>
            (\<exists>b \<in> set ps. nxt (heap s) a = Some b \<and> prv (heap s) b = Some a)) \<and>
         (\<forall>nd. heap s nd \<noteq> None \<and> nd \<notin> set ps \<longrightarrow>
            (\<exists>s'. insert_end (Some nd) s = Some s' \<and> cyclic s' (ps @ [nd]))) \<and>
         (\<forall>nd i. heap s nd \<noteq> None \<and> nd \<notin> set ps \<and> i < length ps \<longrightarrow>
            (\<exists>s'. insert_after (Some (ps ! i)) (Some nd) s = Some s' \<and>
               cyclic s' (take (Suc i) ps @ nd # drop (Suc i) ps))) \<and>
         (\<forall>nd. heap s nd \<noteq> None \<and> nd \<notin> set ps \<longrightarrow>
            (\<exists>s'. insert_after None (Some nd) s = Some s' \<and> cyclic s' (ps @ [nd]))) \<and>
         (\<forall>nd pos. heap s nd \<noteq> None \<and> nd \<notin> set ps \<longrightarrow>
            (\<exists>s'. insert_at_position (Some nd) pos s = Some s' \<and>
               cyclic s' (take (nat (pos - 1)) ps @ nd # drop (nat (pos - 1)) ps))) \<and>
         (\<forall>nm. \<exists>r s'. delete_by_name nm s = Some (r, s') \<and>
            cyclic s' (case find (matches s nm) ps of None \<Rightarrow> ps | Some t \<Rightarrow> remove1 t ps)) \<and>
         (\<exists>s'. clear_route s = Some s' \<and> cyclic s' []) \<and>
         (\<forall>scan_lf ms. load_from_file scan_lf ms None s = Some (0, s)) \<and>
         (\<forall>scan_lf ms f. distinct ms \<and> (\<forall>m \<in> set ms. heap s m = None \<or> m \<in> set ps) \<and>
              length (parsed_rows scan_lf (data_part f)) \<le> length ms \<longrightarrow>
            (\<exists>r s' qs. load_from_file scan_lf ms (Some f) s = Some (r, s') \<and> cyclic s' qs))"
proof (intro conjI)
  show "ps \<noteq> [] \<longrightarrow> advance (length ps) (head s) s = Some (head s)"
    using cyclic_closure(1) [OF assms] by blast
  show "\<forall>k. 0 < k \<and> k < length ps \<longrightarrow> advance k (head s) s \<noteq> Some (head s)"
    using cyclic_closure(2) [OF assms] by (cases "ps = []") auto
  show "\<forall>a \<in> set ps. (\<exists>k < length ps. advance k (head s) s = Some (Some a)) \<and>
            (\<exists>b \<in> set ps. nxt (heap s) a = Some b \<and> prv (heap s) b = Some a)"
    using cyclic_closure(3) [OF assms] cyclic_neighbours [OF assms] by (cases "ps = []") auto
  show "\<forall>nd. heap s nd \<noteq> None \<and> nd \<notin> set ps \<longrightarrow>
            (\<exists>s'. insert_end (Some nd) s = Some s' \<and> cyclic s' (ps @ [nd]))"
    using insert_end_cyclic [OF assms] by blast
  show "\<forall>nd i. heap s nd \<noteq> None \<and> nd \<notin> set ps \<and> i < length ps \<longrightarrow>
            (\<exists>s'. insert_after (Some (ps ! i)) (Some nd) s = Some s' \<and>
               cyclic s' (take (Suc i) ps @ nd # drop (Suc i) ps))"
    using insert_after_cyclic [OF assms] by blast
  show "\<forall>nd. heap s nd \<noteq> None \<and> nd \<notin> set ps \<longrightarrow>
            (\<exists>s'. insert_after None (Some nd) s = Some s' \<and> cyclic s' (ps @ [nd]))"
    using insert_end_cyclic [OF assms] by (simp add: insert_after_def) blast
  show "\<forall>nd pos. heap s nd \<noteq> None \<and> nd \<notin> set ps \<longrightarrow>
            (\<exists>s'. insert_at_position (Some nd) pos s = Some s' \<and>
               cyclic s' (take (nat (pos - 1)) ps @ nd # drop (nat (pos - 1)) ps))"
    using insert_at_position_cyclic [OF assms] by blast
  show "\<forall>nm. \<exists>r s'. delete_by_name nm s = Some (r, s') \<and>
            cyclic s' (case find (matches s nm) ps of None \<Rightarrow> ps | Some t \<Rightarrow> remove1 t ps)"
    using delete_by_name_cyclic [OF assms] by blast
  show "\<exists>s'. clear_route s = Some s' \<and> cyclic s' []"
    using clear_route_released [OF assms] released_cyclic by blast
  show "\<forall>scan_lf ms. load_from_file scan_lf ms None s = Some (0, s)"
    by (simp add: load_from_file_def)
  show "\<forall>scan_lf ms f. distinct ms \<and> (\<forall>m \<in> set ms. heap s m = None \<or> m \<in> set ps) \<and>
              length (parsed_rows scan_lf (data_part f)) \<le> length ms \<longrightarrow>
            (\<exists>r s' qs. load_from_file scan_lf ms (Some f) s = Some (r, s') \<and> cyclic s' qs)"
    using load_from_file_preserves [OF assms] by blast
qed

theorem cyclic_closure_preserved_witness:
  "cyclic (abc_new_route :: real state) [1, 2, 3] \<and>
   advance 3 (head (abc_new_route :: real state)) (abc_new_route :: real state) = Some (Some 1) \<and>
   advance 1 (head (abc_new_route :: real state)) (abc_new_route :: real state) \<noteq> Some (Some 1) \<and>
   advance 2 (head (abc_new_route :: real state)) (abc_new_route :: real state) \<noteq> Some (Some 1) \<and>
   (\<exists>s'. insert_end (Some 4) (abc_new_route :: real state) = Some s' \<and> cyclic s' [1, 2, 3, 4]) \<and>
   (\<exists>s'. insert_after (Some 2) (Some 4) (abc_new_route :: real state) = Some s' \<and> cyclic s' [1, 2, 4, 3]) \<and>
   (\<exists>s'. insert_at_position (Some 4) 2 (abc_new_route :: real state) = Some s' \<and> cyclic s' [1, 4, 2, 3]) \<and>
   (\<exists>r s'. delete_by_name ''B'' (abc_new_route :: real state) = Some (r, s') \<and> cyclic s' [1, 3]) \<and>
   (\<exists>s'. clear_route (abc_new_route :: real state) = Some s' \<and> cyclic s' []) \<and>
   (\<exists>r s' qs. load_from_file scan_lf_decimal [1, 5] (Some sample_file) (abc_new_route :: real state) =
      Some (r, s') \<and> cyclic s' qs)"
proof -
  note t = cyclic_closure_preserved [OF abc_new_route_cyclic [where ?'a = real]]
  note t1 = t [THEN conjunct1]
  note t2 = t [THEN conjunct2, THEN conjunct1]
  note t4 = t [THEN conjunct2, THEN conjunct2, THEN conjunct2, THEN conjunct1]
  note t5 = t [THEN conjunct2, THEN conjunct2, THEN conjunct2, THEN conjunct2, THEN conjunct1]
  note t7 = t [THEN conjunct2, THEN conjunct2, THEN conjunct2, THEN conjunct2, THEN conjunct2,
      THEN conjunct2, THEN conjunct1]
  note t8 = t [THEN conjunct2, THEN conjunct2, THEN conjunct2, THEN conjunct2, THEN conjunct2,
      THEN conjunct2, THEN conjunct2, THEN conjunct1]
  note t9 = t [THEN conjunct2, THEN conjunct2, THEN conjunct2, THEN conjunct2, THEN conjunct2,
      THEN conjunct2, THEN conjunct2, THEN conjunct2, THEN conjunct1]
  note t11 = t [THEN conjunct2, THEN conjunct2, THEN conjunct2, THEN conjunct2, THEN conjunct2,
      THEN conjunct2, THEN conjunct2, THEN conjunct2, THEN conjunct2, THEN conjunct2]
  have l: "length [1, 2, 3 :: addr] = 3" by simp
  have hd: "head (abc_new_route :: real state) = Some 1"
    by (simp add: abc_new_route_def abc_route_def)
  have h4: "heap (abc_new_route :: real state) 4 \<noteq> None \<and> 4 \<notin> set [1, 2, 3 :: addr]"
    by (simp add: abc_new_route_def)
  have a3: "advance 3 (head (abc_new_route :: real state)) (abc_new_route :: real state) = Some (Some 1)"
    using t1 [unfolded l] hd by simp
  have a1: "advance 1 (head (abc_new_route :: real state)) (abc_new_route :: real state) \<noteq> Some (Some 1)"
    using t2 [unfolded l, THEN spec, of 1] hd by simp
  have a2: "advance 2 (head (abc_new_route :: real state)) (abc_new_route :: real state) \<noteq> Some (Some 1)"
    using t2 [unfolded l, THEN spec, of 2] hd by simp
  have ie: "\<exists>s'. insert_end (Some 4) (abc_new_route :: real state) = Some s' \<and> cyclic s' [1, 2, 3, 4]"
    using t4 [THEN spec, of 4] h4 by simp
  have ia: "\<exists>s'. insert_after (Some 2) (Some 4) (abc_new_route :: real state) = Some s' \<and> cyclic s' [1, 2, 4, 3]"
    using t5 [THEN spec [of _ 4], THEN spec [of _ 1]] h4 by simp
  have ip: "\<exists>s'. insert_at_position (Some 4) 2 (abc_new_route :: real state) = Some s' \<and> cyclic s' [1, 4, 2, 3]"
    using t7 [THEN spec [of _ 4], THEN spec [of _ 2]] h4 by simp
  have f: "find (matches (abc_new_route :: real state) ''B'') [1, 2, 3] = Some 2"
    by (simp add: matches_payloads abc_new_route_payloads tolower_def)
  have dl: "\<exists>r s'. delete_by_name ''B'' (abc_new_route :: real state) = Some (r, s') \<and> cyclic s' [1, 3]"
    using t8 [THEN spec, of "''B''", unfolded f] by simp
  have cl: "\<exists>s'. clear_route (abc_new_route :: real state) = Some s' \<and> cyclic s' []"
    using t9 .
  have dp: "data_part sample_file = sample_rows"
    by (simp add: data_part_def sample_file_header)
  have pre: "distinct [1 :: addr, 5] \<and>
      (\<forall>m \<in> set [1, 5]. heap (abc_new_route :: real state) m = None \<or> m \<in> set [1, 2, 3]) \<and>
      length (parsed_rows scan_lf_decimal (data_part sample_file)) \<le> length [1 :: addr, 5]"
    by (simp add: dp sample_file_rows abc_new_route_def abc_route_def)
  have ld: "\<exists>r s' qs. load_from_file scan_lf_decimal [1, 5] (Some sample_file) (abc_new_route :: real state) =
      Some (r, s') \<and> cyclic s' qs"
    using t11 [THEN spec [of _ scan_lf_decimal], THEN spec [of _ "[1, 5]"], THEN spec [of _ sample_file]] pre
    by blast
  show ?thesis
    using abc_new_route_cyclic [where ?'a = real] a3 a1 a2 ie ia ip dl cl ld by blast
qed

section \<open>Distances in both directions\<close>

text \<open>
  Claim C3, as stated, fails on the sums of \<open>double\<close>: the two calls and the total add
  the same weights in different groupings, and each addition rounds. With the weights
  0.1, 0.2 and 0.3, from \<open>A\<close> to \<open>B\<close> is 0.1, from \<open>B\<close> to \<open>A\<close> is 0.2 + 0.3 = 0.5, their
  sum is the binary64 number nearest 0.6, and the total (0.1 + 0.2) + 0.3 is the next
  binary64 number above it.
\<close>

theorem distance_between_rounded_sums_differ:
  "distance_between ''A'' ''B'' tenths_route =
     Some (1, B64 7205759403792794 (- 56), B64 7205759403792794 (- 56)) \<and>
   distance_between ''B'' ''A'' tenths_route =
     Some (1, B64 4503599627370496 (- 53), B64 4503599627370496 (- 53)) \<and>
   total_distance_time tenths_route =
     Some (B64 5404319552844596 (- 53), B64 5404319552844596 (- 53)) \<and>
   B64 7205759403792794 (- 56) + B64 4503599627370496 (- 53) = B64 5404319552844595 (- 53) \<and>
   b64_value (B64 5404319552844595 (- 53)) < b64_value (B64 5404319552844596 (- 53))"
proof -
  have ab: "distance_between ''A'' ''B'' tenths_route =
      Some (1, B64 7205759403792794 (- 56), B64 7205759403792794 (- 56))"
    using distance_between_cyclic [OF tenths_route_cyclic tenths_route_find(1) tenths_route_find(2)]
    by (simp add: legs_def map_filter_simps tenths_route_def add_leg_def zero_binary64_def
        plus_binary64_def round_to_53_def Let_def)
  have ba: "distance_between ''B'' ''A'' tenths_route =
      Some (1, B64 4503599627370496 (- 53), B64 4503599627370496 (- 53))"
    using distance_between_cyclic [OF tenths_route_cyclic tenths_route_find(2) tenths_route_find(1)]
    by (simp add: legs_def map_filter_simps tenths_route_def add_leg_def zero_binary64_def
        plus_binary64_def round_to_53_def Let_def)
  have tot: "total_distance_time tenths_route =
      Some (B64 5404319552844596 (- 53), B64 5404319552844596 (- 53))"
    using total_distance_time_cyclic [OF tenths_route_cyclic]
    by (simp add: legs_def map_filter_simps tenths_route_def add_leg_def zero_binary64_def
        plus_binary64_def round_to_53_def Let_def)
  have sm: "B64 7205759403792794 (- 56) + B64 4503599627370496 (- 53) = B64 5404319552844595 (- 53)"
    by (simp add: plus_binary64_def round_to_53_def Let_def)
  have lt: "b64_value (B64 5404319552844595 (- 53)) < b64_value (B64 5404319552844596 (- 53))"
    by simp
  show ?thesis using ab ba tot sm lt by blast
qed

text \<open>
  Claim C3, amended. When the additions are exact (any commutative, associative addition
  with zero, such as that of the real numbers), then on a route that satisfies the
  invariant and for two names that \<open>find_by_name\<close> resolves to distinct stops, both calls
  of \<open>distance_between\<close> return 1 and their results add up to the result of
  \<open>total_distance_time\<close>, in distance and in time.
\<close>

theorem distance_between_both_ways_exact:
  fixes s :: "'w::comm_monoid_add state"
  assumes "cyclic s ps" "find_by_name a s = Some (Some x)" "find_by_name b s = Some (Some y)"
    "x \<noteq> y"
  shows "\<exists>d1 t1 d2 t2. distance_between a b s = Some (1, d1, t1) \<and>
           distance_between b a s = Some (1, d2, t2) \<and>
           total_distance_time s = Some (d1 + d2, t1 + t2)"
proof -
  obtain i where i: "i < length ps" "ps ! i = x" using find_by_name_index [OF assms(1,2)] .
  obtain j where j: "j < length ps" "ps ! j = y" using find_by_name_index [OF assms(1,3)] .
  have ij: "i \<noteq> j" using assms(4) i(2) j(2) by auto
  let ?n = "length ps"
  let ?m = "(j + ?n - i) mod ?n"
  let ?m' = "(i + ?n - j) mod ?n"
  let ?qs = "rotate i ps"
  have n0: "0 < ?n" using i(1) by auto
  have md: "(q + ?n - p) mod ?n = (if p < q then q - p else q + ?n - p)"
    if "p < ?n" "q < ?n" "p \<noteq> q" for p q
  proof (cases "p < q")
    case True
    then have "q + ?n - p = (q - p) + ?n" by simp
    then have "(q + ?n - p) mod ?n = (q - p) mod ?n" by (metis mod_add_self2)
    then show ?thesis using True that by simp
  next
    case False
    then show ?thesis using that by simp
  qed
  have m: "?m = (if i < j then j - i else j + ?n - i)" using md [OF i(1) j(1) ij] .
  have m': "?m' = (if j < i then i - j else i + ?n - j)" using md [OF j(1) i(1) ij [symmetric]] .
  have mm: "?m + ?m' = ?n" using i(1) j(1) ij unfolding m m' by auto
  have ml: "?m < ?n" using n0 by simp
  have "rotate j ps = rotate ((?m + i) mod ?n) ps"
    using i(1) j(1) ij unfolding m by (auto simp: not_less)
  also have "\<dots> = rotate ?m ?qs" by (simp add: rotate_rotate rotate_conv_mod [symmetric])
  also have "\<dots> = drop ?m ?qs @ take ?m ?qs" using ml by (simp add: rotate_drop_take)
  finally have rj: "rotate j ps = drop ?m ?qs @ take ?m ?qs" .
  have "length (drop ?m ?qs) = ?m'" using mm by simp
  then have tk: "take ?m' (rotate j ps) = drop ?m ?qs" unfolding rj by simp
  have d1: "distance_between a b s = Some (1, foldl add_leg (0, 0) (legs s (take ?m ?qs)))"
    using distance_between_cyclic [OF assms(1) _ _ i(1) j(1) ij, of a b] assms(2,3) i(2) j(2)
    by simp
  have d2: "distance_between b a s = Some (1, foldl add_leg (0, 0) (legs s (drop ?m ?qs)))"
    using distance_between_cyclic [OF assms(1) _ _ j(1) i(1) ij [symmetric], of b a] assms(2,3) i(2) j(2) tk
    by simp
  have tot: "total_distance_time s = Some (foldl add_leg (0, 0) (legs s ps))"
    using total_distance_time_cyclic [OF assms(1)] .
  have "sum_list (map f (legs s (take ?m ?qs))) + sum_list (map f (legs s (drop ?m ?qs))) =
        sum_list (map f (legs s ps))" for f :: "'w \<times> 'w \<Rightarrow> 'w"
  proof -
    have "sum_list (map f (legs s (take ?m ?qs))) + sum_list (map f (legs s (drop ?m ?qs))) =
          sum_list (map f (legs s (take ?m ?qs @ drop ?m ?qs)))"
      by (simp only: legs_append map_append sum_list_append)
    then show ?thesis by (simp add: sum_legs_rotate)
  qed
  then show ?thesis
    using d1 d2 tot by (simp add: foldl_add_leg)
qed

theorem distance_between_both_ways_exact_witness:
  "cyclic (abc_route :: real state) [1, 2, 3] \<and>
   find_by_name ''A'' (abc_route :: real state) = Some (Some 1) \<and>
   find_by_name ''C'' (abc_route :: real state) = Some (Some 3) \<and>
   (\<exists>d1 t1 d2 t2. distance_between ''A'' ''C'' (abc_route :: real state) = Some (1, d1, t1) \<and>
      distance_between ''C'' ''A'' (abc_route :: real state) = Some (1, d2, t2) \<and>
      total_distance_time (abc_route :: real state) = Some (d1 + d2, t1 + t2)) \<and>
   distance_between ''A'' ''C'' (abc_route :: real state) = Some (1, 4, 6) \<and>
   distance_between ''C'' ''A'' (abc_route :: real state) = Some (1, 5, 6) \<and>
   total_distance_time (abc_route :: real state) = Some (9, 12)"
proof -
  note c = abc_route_cyclic [where ?'a = real]
  have fa: "find_by_name ''A'' (abc_route :: real state) = Some (Some 1)"
    and fc: "find_by_name ''C'' (abc_route :: real state) = Some (Some 3)"
    using abc_route_find by simp_all
  have ne: "(1 :: addr) \<noteq> 3" by simp
  have ac: "distance_between ''A'' ''C'' (abc_route :: real state) = Some (1, 4, 6)"
    using distance_between_cyclic [OF c abc_route_find(1) abc_route_find(2)]
    by (simp add: legs_def map_filter_simps abc_route_def add_leg_def)
  have ca: "distance_between ''C'' ''A'' (abc_route :: real state) = Some (1, 5, 6)"
    using distance_between_cyclic [OF c abc_route_find(2) abc_route_find(1)]
    by (simp add: legs_def map_filter_simps abc_route_def add_leg_def rotate_def numeral_2_eq_2)
  have tot: "total_distance_time (abc_route :: real state) = Some (9, 12)"
    using total_distance_time_cyclic [OF c]
    by (simp add: legs_def map_filter_simps abc_route_def add_leg_def)
  show ?thesis
    using distance_between_both_ways_exact [OF c fa fc ne] c fa fc ac ca tot by blast
qed

section \<open>Saving and loading again\<close>

text \<open>
  Claim C5. The round trip fails on a stop whose name is empty, by a defect of the
  program. Menu option 3 stores the empty name that the user enters: in the initial
  state it makes \<open>unnamed_route\<close>, whose one stop has a name that holds no delimiter.
  \<open>save_to_file\<close> writes the row \<open>1,,0,1.000000,2.000000\<close> for it, and in
  \<open>load_from_file\<close> the conversion \<open>%63[^,]\<close>, which needs at least one character, does
  not match the empty field: the program skips the row that it wrote. Saving the route
  and loading the file into the initial state returns 1 and leaves the route empty,
  where the claim has the stop come back.
\<close>

theorem save_then_load_drops_unnamed_stop:
  "append_stop (Some 1) [] 0 1 2 (init_state :: real state) = Some unnamed_route \<and>
   tuple_at unnamed_route 1 = Some ([], 0, 1, 2) \<and>
   save_to_file fmt_f_decimal True unnamed_route =
     Some (1, Some (header_line @ unnamed_row @ [CHR 0x0A])) \<and>
   map_option (map_prod id head)
     (load_from_file scan_lf_decimal [7] (Some (header_line @ unnamed_row @ [CHR 0x0A]))
        (init_state :: real state)) = Some (1, None)"
proof -
  have a: "append_stop (Some 1) [] 0 1 2 (init_state :: real state) = Some unnamed_route"
    by (simp add: append_stop_def create_stop_def insert_end_def set_prev_def set_next_def
        store_def init_state_def unnamed_route_def wrap32_def)
  have t: "tuple_at unnamed_route 1 = Some ([], 0, 1, 2)"
    by (simp add: tuple_at_def unnamed_route_def)
  have sv: "save_to_file fmt_f_decimal True unnamed_route =
      Some (1, Some (header_line @ unnamed_row @ [CHR 0x0A]))"
    using save_to_file_cyclic [OF unnamed_route_cyclic, of fmt_f_decimal, unfolded unnamed_route_text]
    by simp
  have fr: "\<forall>m \<in> set [7]. heap (init_state :: real state) m = None \<or> m \<in> set []"
    by (simp add: init_state_def)
  have le: "length (parsed_rows scan_lf_decimal (unnamed_row @ [CHR 0x0A])) \<le> length [7 :: addr]"
    by (simp add: unnamed_row_parsed)
  obtain s' where s': "load_from_file scan_lf_decimal [7] (Some (header_line @ unnamed_row @ [CHR 0x0A]))
        (init_state :: real state) = Some (1, s')"
      "cyclic s' (take (length (parsed_rows scan_lf_decimal (unnamed_row @ [CHR 0x0A]))) [7])"
    using load_from_file_cyclic [OF init_state_cyclic _ fr fgets_header le] by auto
  have "head s' = None" using s'(2) by (simp add: unnamed_row_parsed cyclic_def)
  then show ?thesis using a t sv s'(1) by simp
qed

text \<open>
  For stops with a name the two functions do what they attempt. Let every stop of a
  non-empty route satisfy \<open>round_trips\<close>: its name is not empty and holds no comma, NUL or
  newline, its row fits into \<open>LINE_LEN - 1\<close> characters, and the library reads the
  six-decimal text of each weight \<open>w\<close> back as \<open>reread w\<close>. Then saving succeeds, and
  loading the text written, into any state that satisfies the invariant and with a fresh
  node for each row, succeeds and yields a route of as many stops with, in the same
  order, the same names and passenger counts and the weights read back; the identities
  are assigned anew.
\<close>

theorem save_then_load_round_trip:
  assumes "cyclic s ps" "ps \<noteq> []"
    "\<forall>st \<in> set (stops s ps). round_trips fmt_f scan_lf reread st"
    "cyclic s0 ps0" "distinct ms" "\<forall>m \<in> set ms. heap s0 m = None \<or> m \<in> set ps0"
    "length ps \<le> length ms"
  shows "\<exists>text s'. save_to_file fmt_f True s = Some (1, Some text) \<and>
           load_from_file scan_lf ms (Some text) s0 = Some (1, s') \<and>
           cyclic s' (take (length ps) ms) \<and>
           map (tuple_at s') (take (length ps) ms) =
             map (\<lambda>st. Some (reread_tuple reread st)) (stops s ps)"
proof -
  let ?sts = "stops s ps"
  let ?data = "concat (map (format_row fmt_f) ?sts)"
  let ?text = "header_line @ ?data"
  have sv: "save_to_file fmt_f True s = Some (1, Some ?text)"
    using save_to_file_cyclic [OF assms(1,2)] .
  have pr: "parsed_rows scan_lf ?data = map (reread_tuple reread) ?sts"
    using parsed_rows_rows [OF assms(3)] .
  have ln: "length ?sts = length ps" using stops_length [OF assms(1)] by simp
  have le: "length (parsed_rows scan_lf ?data) \<le> length ms" using pr ln assms(7) by simp
  obtain s' where s': "load_from_file scan_lf ms (Some ?text) s0 = Some (1, s')"
      "cyclic s' (take (length (parsed_rows scan_lf ?data)) ms)"
      "map (payloads s') (take (length (parsed_rows scan_lf ?data)) ms) =
         map Some (loaded_stops (next_id s0) (parsed_rows scan_lf ?data))"
    using load_from_file_cyclic [OF assms(4,5,6) fgets_header le] by blast
  have nl: "\<forall>r \<in> set (map (reread_tuple reread) ?sts). length (fst r) < NAME_LEN"
    using assms(3) by (auto simp: reread_tuple_def round_trips_def)
  have "map (tuple_at s') (take (length ps) ms) =
        map (map_option (\<lambda>(i, r). r)) (map (payloads s') (take (length ps) ms))"
    by (simp add: tuple_at_payloads)
  also have "\<dots> = map (map_option (\<lambda>(i, r). r))
        (map Some (loaded_stops (next_id s0) (map (reread_tuple reread) ?sts)))"
    using s'(3) pr ln by simp
  also have "\<dots> = map Some (map (\<lambda>(i, r). r) (loaded_stops (next_id s0) (map (reread_tuple reread) ?sts)))"
    by (simp add: comp_def)
  also have "\<dots> = map Some (map (reread_tuple reread) ?sts)"
    using loaded_stops_tuples [OF nl] by simp
  finally have "map (tuple_at s') (take (length ps) ms) =
      map (\<lambda>st. Some (reread_tuple reread st)) ?sts"
    by (simp add: comp_def)
  then show ?thesis using sv s'(1,2) pr ln by auto
qed

theorem save_then_load_round_trip_witness:
  "cyclic (abc_route :: real state) [1, 2, 3] \<and>
   round_trips fmt_f_decimal scan_lf_decimal (\<lambda>w. w)
     \<lparr>stop_id = 1, name = ''A'', passengers = 0, dist_to_next = 1, time_to_next = 2,
      prev = Some 3, next_p = Some 2\<rparr> \<and>
   round_trips fmt_f_decimal scan_lf_decimal (\<lambda>w. w)
     \<lparr>stop_id = 2, name = ''B'', passengers = 0, dist_to_next = 3, time_to_next = 4,
      prev = Some 1, next_p = Some 3\<rparr> \<and>
   round_trips fmt_f_decimal scan_lf_decimal (\<lambda>w. w)
     \<lparr>stop_id = 3, name = ''C'', passengers = 0, dist_to_next = 5, time_to_next = 6,
      prev = Some 2, next_p = Some 1\<rparr> \<and>
   cyclic (init_state :: real state) [] \<and> distinct [7 :: addr, 8, 9] \<and>
   (\<exists>text s'. save_to_file fmt_f_decimal True (abc_route :: real state) = Some (1, Some text) \<and>
      load_from_file scan_lf_decimal [7, 8, 9] (Some text) (init_state :: real state) = Some (1, s') \<and>
      cyclic s' [7, 8, 9] \<and>
      map (tuple_at s') [7, 8, 9] =
        [Some (''A'', 0, 1, 2), Some (''B'', 0, 3, 4), Some (''C'', 0, 5, 6)])"
proof -
  note c = abc_route_cyclic [where ?'a = real]
  have ne: "[1, 2, 3 :: addr] \<noteq> []" by simp
  have d: "distinct [7 :: addr, 8, 9]" by simp
  have fr: "\<forall>m \<in> set [7, 8, 9]. heap (init_state :: real state) m = None \<or> m \<in> set []"
    by (simp add: init_state_def)
  have le: "length [1, 2, 3 :: addr] \<le> length [7 :: addr, 8, 9]" by simp
  have r1: "round_trips fmt_f_decimal scan_lf_decimal (\<lambda>w. w)
     \<lparr>stop_id = 1, name = ''A'', passengers = 0, dist_to_next = 1, time_to_next = 2,
      prev = Some 3, next_p = Some 2\<rparr>"
    using abc_route_round_trips unfolding abc_route_stops by simp
  have r2: "round_trips fmt_f_decimal scan_lf_decimal (\<lambda>w. w)
     \<lparr>stop_id = 2, name = ''B'', passengers = 0, dist_to_next = 3, time_to_next = 4,
      prev = Some 1, next_p = Some 3\<rparr>"
    using abc_route_round_trips unfolding abc_route_stops by simp
  have r3: "round_trips fmt_f_decimal scan_lf_decimal (\<lambda>w. w)
     \<lparr>stop_id = 3, name = ''C'', passengers = 0, dist_to_next = 5, time_to_next = 6,
      prev = Some 2, next_p = Some 1\<rparr>"
    using abc_route_round_trips unfolding abc_route_stops by simp
  have "\<exists>text s'. save_to_file fmt_f_decimal True (abc_route :: real state) = Some (1, Some text) \<and>
      load_from_file scan_lf_decimal [7, 8, 9] (Some text) (init_state :: real state) = Some (1, s') \<and>
      cyclic s' (take (length [1, 2, 3 :: addr]) [7, 8, 9]) \<and>
      map (tuple_at s') (take (length [1, 2, 3 :: addr]) [7, 8, 9]) =
        map (\<lambda>st. Some (reread_tuple (\<lambda>w. w) st)) (stops (abc_route :: real state) [1, 2, 3])"
    using save_then_load_round_trip [OF c ne abc_route_round_trips init_state_cyclic d fr le] .
  then have "\<exists>text s'. save_to_file fmt_f_decimal True (abc_route :: real state) = Some (1, Some text) \<and>
      load_from_file scan_lf_decimal [7, 8, 9] (Some text) (init_state :: real state) = Some (1, s') \<and>
      cyclic s' [7, 8, 9] \<and>
      map (tuple_at s') [7, 8, 9] =
        [Some (''A'', 0, 1, 2), Some (''B'', 0, 3, 4), Some (''C'', 0, 5, 6)]"
    unfolding abc_route_stops by (simp add: reread_tuple_def)
  then show ?thesis using c r1 r2 r3 init_state_cyclic [where ?'a = real] d by blast
qed

end
